theory Spec2Isabelle
  imports Main "HOL-Library.AList" "HOL-Library.Sublist"
begin

section \<open>Strings as the script uses them\<close>

text \<open>
  JavaScript's \<open>String.prototype.split\<close> with a one-character separator and
  \<open>Array.prototype.join\<close>. Splitting the empty string gives one empty piece.
\<close>

fun split_on :: "char \<Rightarrow> string \<Rightarrow> string list" where
  "split_on sep [] = [[]]"
| "split_on sep (c # cs) =
     (if c = sep then [] # split_on sep cs
      else (case split_on sep cs of
              [] \<Rightarrow> [[c]]
            | w # ws \<Rightarrow> (c # w) # ws))"

fun join_with :: "string \<Rightarrow> string list \<Rightarrow> string" where
  "join_with sep [] = []"
| "join_with sep [x] = x"
| "join_with sep (x # y # ys) = x @ sep @ join_with sep (y # ys)"

text \<open>The index of the first character satisfying a test (\<open>match.index\<close> of a
  one-character regular expression), \<open>None\<close> when the match is \<open>null\<close>.\<close>

fun first_index :: "(char \<Rightarrow> bool) \<Rightarrow> string \<Rightarrow> nat option" where
  "first_index P [] = None"
| "first_index P (c # cs) =
     (if P c then Some 0 else map_option Suc (first_index P cs))"

text \<open>\<open>String.prototype.lastIndexOf\<close>: \<open>-1\<close> when the character does not occur.\<close>

fun lastIndexOf :: "char \<Rightarrow> string \<Rightarrow> int" where
  "lastIndexOf c [] = -1"
| "lastIndexOf c (x # xs) =
     (let r = lastIndexOf c xs
      in if r \<ge> 0 then r + 1 else if x = c then 0 else -1)"

section \<open>The path module of Node.js, POSIX flavour\<close>

text \<open>
  The script runs on Node.js and calls \<open>path.sep\<close>, \<open>path.resolve\<close>, \<open>path.join\<close>,
  \<open>path.dirname\<close>, \<open>path.basename\<close> and \<open>path.relative\<close>. They are modelled here as
  the POSIX implementation computes them. The working directory of the process is the
  explicit argument \<open>cwd\<close>.
\<close>

definition path_sep :: char where
  "path_sep = CHR ''/''"

definition normalize_step :: "bool \<Rightarrow> string list \<Rightarrow> string \<Rightarrow> string list" where
  "normalize_step allowAboveRoot res seg =
     (if seg = [] \<or> seg = ''.'' then res
      else if seg = ''..'' then
        (if res \<noteq> [] \<and> last res \<noteq> ''..'' then butlast res
         else if allowAboveRoot then res @ [''..'']
         else res)
      else res @ [seg])"

definition normalizeString :: "string \<Rightarrow> bool \<Rightarrow> string" where
  "normalizeString p allowAboveRoot =
     join_with ''/'' (foldl (normalize_step allowAboveRoot) [] (split_on CHR ''/'' p))"

definition path_normalize :: "string \<Rightarrow> string" where
  "path_normalize p =
     (if p = [] then ''.''
      else
        let isAbsolute = (hd p = CHR ''/'');
            trailingSeparator = (last p = CHR ''/'');
            s = normalizeString p (\<not> isAbsolute)
        in if s = [] then
             (if isAbsolute then ''/'' else if trailingSeparator then ''./'' else ''.'')
           else
             (let s' = (if trailingSeparator then s @ ''/'' else s)
              in if isAbsolute then CHR ''/'' # s' else s'))"

definition path_join :: "string \<Rightarrow> string \<Rightarrow> string" where
  "path_join a b =
     (let parts = filter (\<lambda>x. x \<noteq> []) [a, b]
      in if parts = [] then ''.'' else path_normalize (join_with ''/'' parts))"

definition path_resolve :: "string \<Rightarrow> string \<Rightarrow> string" where
  "path_resolve cwd p =
     (let r1 = (if p = [] then [] else p @ ''/'');
          abs1 = (p \<noteq> [] \<and> hd p = CHR ''/'');
          r2 = (if abs1 \<or> cwd = [] then r1 else cwd @ ''/'' @ r1);
          abs2 = (abs1 \<or> (cwd \<noteq> [] \<and> hd cwd = CHR ''/''));
          s = normalizeString r2 (\<not> abs2)
      in if abs2 then CHR ''/'' # s else if s \<noteq> [] then s else ''.'')"

definition path_dirname :: "string \<Rightarrow> string" where
  "path_dirname p =
     (if p = [] then ''.''
      else
        let hasRoot = (hd p = CHR ''/'');
            r = dropWhile (\<lambda>c. c \<noteq> CHR ''/'') (dropWhile (\<lambda>c. c = CHR ''/'') (rev (tl p)))
        in if r = [] then (if hasRoot then ''/'' else ''.'')
           else if hasRoot \<and> tl r = [] then ''//''
           else hd p # rev (tl r))"

definition path_basename :: "string \<Rightarrow> string" where
  "path_basename p =
     rev (takeWhile (\<lambda>c. c \<noteq> CHR ''/'') (dropWhile (\<lambda>c. c = CHR ''/'') (rev p)))"

text \<open>The non-empty segments of a path.\<close>

definition segments :: "string \<Rightarrow> string list" where
  "segments p = filter (\<lambda>s. s \<noteq> []) (split_on CHR ''/'' p)"

fun common_prefix_length :: "string list \<Rightarrow> string list \<Rightarrow> nat" where
  "common_prefix_length (x # xs) (y # ys) =
     (if x = y then Suc (common_prefix_length xs ys) else 0)"
| "common_prefix_length _ _ = 0"

definition path_relative :: "string \<Rightarrow> string \<Rightarrow> string \<Rightarrow> string" where
  "path_relative cwd from to =
     (let f = segments (path_resolve cwd from);
          t = segments (path_resolve cwd to);
          n = common_prefix_length f t
      in join_with ''/'' (replicate (length f - n) ''..'' @ drop n t))"

section \<open>copy-files: path helpers\<close>

text \<open>\<open>normalizePath = filePath.split(path.sep).join('/')\<close>\<close>

definition normalizePath :: "string \<Rightarrow> string" where
  "normalizePath filePath = join_with ''/'' (split_on path_sep filePath)"

text \<open>The character class of the regular expression \<open>/[*?[\]]/\<close>.\<close>

definition is_glob_char :: "char \<Rightarrow> bool" where
  "is_glob_char c = (c = CHR ''*'' \<or> c = CHR ''?'' \<or> c = CHR ''['' \<or> c = CHR '']'')"

definition hasGlobChars :: "string \<Rightarrow> bool" where
  "hasGlobChars s = list_ex is_glob_char s"

text \<open>
  \<open>findGlobBase\<close>. The test \<open>!match?.index\<close> is true when there is no match and also
  when the match is at index 0.
\<close>

definition findGlobBase :: "string \<Rightarrow> string \<Rightarrow> string" where
  "findGlobBase cwd pattern =
     (let normalized = normalizePath pattern
      in case first_index is_glob_char normalized of
           None \<Rightarrow> path_dirname pattern
         | Some i \<Rightarrow>
             if i = 0 then path_dirname pattern
             else
               let base = take i normalized;
                   lastSlash = lastIndexOf CHR ''/'' base
               in path_resolve cwd (if lastSlash \<ge> 0 then take (nat lastSlash) base else ''.''))"

section \<open>env: reading a variable\<close>

text \<open>
  \<open>get(key, defaultValue) { return process.env[key] || `${defaultValue}` }\<close>.
  The variables of the environment are a map from names to strings. \<open>process.env\<close> is
  an object whose own properties are these variables and whose prototype is
  \<open>Object.prototype\<close>: reading a name that is not a variable yields the property of
  that name inherited from the prototype (a function, or the prototype itself for
  \<open>__proto__\<close>) when there is one, and \<open>undefined\<close> otherwise. The second argument is a
  string or is missing, and the template literal turns a missing one into text.
\<close>

datatype js_value = Undefined | Str string | Inherited string

definition object_prototype :: "string list" where
  "object_prototype =
     [''constructor'', ''__defineGetter__'', ''__defineSetter__'', ''hasOwnProperty'',
      ''__lookupGetter__'', ''__lookupSetter__'', ''isPrototypeOf'', ''propertyIsEnumerable'',
      ''toString'', ''valueOf'', ''__proto__'', ''toLocaleString'']"

definition env_property :: "(string \<rightharpoonup> string) \<Rightarrow> string \<Rightarrow> js_value" where
  "env_property env key =
     (case env key of
        Some v \<Rightarrow> Str v
      | None \<Rightarrow> if key \<in> set object_prototype then Inherited key else Undefined)"

fun truthy :: "js_value \<Rightarrow> bool" where
  "truthy Undefined = False"
| "truthy (Str s) = (s \<noteq> [])"
| "truthy (Inherited name) = True"

fun template :: "string option \<Rightarrow> string" where
  "template None = ''undefined''"
| "template (Some s) = s"

definition get :: "(string \<rightharpoonup> string) \<Rightarrow> string \<Rightarrow> string option \<Rightarrow> js_value" where
  "get env key defaultValue =
     (if truthy (env_property env key) then env_property env key
      else Str (template defaultValue))"

section \<open>The file system\<close>

text \<open>
  The disk is a tree. A node is a regular file with its bytes, a directory with its
  entries in the order \<open>readdir\<close> yields them, a directory that may not be read or
  entered (\<open>Locked\<close>), or a special file that is neither a regular file nor a
  directory (\<open>Other\<close>). There are no symbolic links, so a path names the node reached
  from the root along the segments of its resolved form.
\<close>

datatype fs_error = ENOENT | ENOTDIR | EACCES | EISDIR | EEXIST | EINVAL

type_synonym bytes = "char list"

datatype node =
    File bytes
  | Dir "(string \<times> node) list"
  | Locked
  | Other

text \<open>\<open>Stats.isDirectory()\<close>, \<open>Dirent.isDirectory()\<close> and the \<open>isFile()\<close> of both.\<close>

definition isDirectory :: "node \<Rightarrow> bool" where
  "isDirectory n = (case n of Dir _ \<Rightarrow> True | Locked \<Rightarrow> True | _ \<Rightarrow> False)"

definition isFile :: "node \<Rightarrow> bool" where
  "isFile n = (case n of File _ \<Rightarrow> True | _ \<Rightarrow> False)"

fun walk :: "node \<Rightarrow> string list \<Rightarrow> fs_error + node" where
  "walk n [] = Inr n"
| "walk (Dir es) (s # ss) =
     (case map_of es s of None \<Rightarrow> Inl ENOENT | Some c \<Rightarrow> walk c ss)"
| "walk (File _) (s # ss) = Inl ENOTDIR"
| "walk Locked (s # ss) = Inl EACCES"
| "walk Other (s # ss) = Inl ENOTDIR"

fun fresh_dirs :: "string list \<Rightarrow> node" where
  "fresh_dirs [] = Dir []"
| "fresh_dirs (s # ss) = Dir [(s, fresh_dirs ss)]"

text \<open>\<open>mkdir\<close> with \<open>recursive: true\<close>: an existing directory is left alone, missing
  ones are created, a file on the way is an error.\<close>

fun mkdirp :: "node \<Rightarrow> string list \<Rightarrow> fs_error + node" where
  "mkdirp (Dir es) [] = Inr (Dir es)"
| "mkdirp Locked [] = Inr Locked"
| "mkdirp (File c) [] = Inl EEXIST"
| "mkdirp Other [] = Inl EEXIST"
| "mkdirp (Dir es) (s # ss) =
     (case map_of es s of
        None \<Rightarrow> Inr (Dir (AList.update s (fresh_dirs ss) es))
      | Some c \<Rightarrow>
          (case mkdirp c ss of
             Inl e \<Rightarrow> Inl e
           | Inr c' \<Rightarrow> Inr (Dir (AList.update s c' es))))"
| "mkdirp (File c) (s # ss) = Inl ENOTDIR"
| "mkdirp Locked (s # ss) = Inl EACCES"
| "mkdirp Other (s # ss) = Inl ENOTDIR"

text \<open>Writing a regular file: it is created in an existing directory or replaces the
  bytes of an existing regular file.\<close>

fun write_file :: "node \<Rightarrow> string list \<Rightarrow> bytes \<Rightarrow> fs_error + node" where
  "write_file (File old) [] c = Inr (File c)"
| "write_file (Dir es) [] c = Inl EISDIR"
| "write_file Locked [] c = Inl EISDIR"
| "write_file Other [] c = Inl EINVAL"
| "write_file (Dir es) (s # ss) c =
     (case map_of es s of
        None \<Rightarrow> if ss = [] then Inr (Dir (AList.update s (File c) es)) else Inl ENOENT
      | Some ch \<Rightarrow>
          (case write_file ch ss c of
             Inl e \<Rightarrow> Inl e
           | Inr ch' \<Rightarrow> Inr (Dir (AList.update s ch' es))))"
| "write_file (File old) (s # ss) c = Inl ENOTDIR"
| "write_file Locked (s # ss) c = Inl EACCES"
| "write_file Other (s # ss) c = Inl ENOTDIR"

definition locate :: "string \<Rightarrow> string \<Rightarrow> string list" where
  "locate cwd p = segments (path_resolve cwd p)"

text \<open>\<open>fs.promises.stat\<close>, \<open>stat(...).catch(() => null)\<close>, \<open>mkdir(dir, {recursive: true})\<close>
  and \<open>copyFile\<close> without a mode flag, which replaces an existing destination.\<close>

definition stat :: "string \<Rightarrow> node \<Rightarrow> string \<Rightarrow> fs_error + node" where
  "stat cwd root p = walk root (locate cwd p)"

definition stat_or_null :: "string \<Rightarrow> node \<Rightarrow> string \<Rightarrow> node option" where
  "stat_or_null cwd root p = (case stat cwd root p of Inl e \<Rightarrow> None | Inr n \<Rightarrow> Some n)"

definition mkdir_recursive :: "string \<Rightarrow> node \<Rightarrow> string \<Rightarrow> fs_error + node" where
  "mkdir_recursive cwd root dir = mkdirp root (locate cwd dir)"

definition copyFile :: "string \<Rightarrow> node \<Rightarrow> string \<Rightarrow> string \<Rightarrow> fs_error + node" where
  "copyFile cwd root src dest =
     (case walk root (locate cwd src) of
        Inl e \<Rightarrow> Inl e
      | Inr (File c) \<Rightarrow> write_file root (locate cwd dest) c
      | Inr (Dir es) \<Rightarrow> Inl EISDIR
      | Inr Locked \<Rightarrow> Inl EISDIR
      | Inr Other \<Rightarrow> Inl EINVAL)"

text \<open>What a path holds, as far as a copy can tell: the bytes of a regular file, and
  the kind of anything else.\<close>

datatype entry = EFile bytes | EDir | ELocked | EOther

fun entry_of :: "node \<Rightarrow> entry" where
  "entry_of (File c) = EFile c"
| "entry_of (Dir es) = EDir"
| "entry_of Locked = ELocked"
| "entry_of Other = EOther"

definition stat_at :: "node \<Rightarrow> string list \<Rightarrow> entry option" where
  "stat_at root q = (case walk root q of Inl e \<Rightarrow> None | Inr n \<Rightarrow> Some (entry_of n))"

section \<open>copy-files: finding and copying\<close>

text \<open>
  \<open>minimatch(path, pattern, options)\<close> is a library function; the script is modelled
  for any such function, given as the argument \<open>mm\<close>.
\<close>

record mm_options =
  dot :: bool

type_synonym matcher = "string \<Rightarrow> string \<Rightarrow> mm_options \<Rightarrow> bool"

record matched =
  absolute :: string
  relative :: string

text \<open>
  \<open>findFiles\<close>. The directory is passed with its path: \<open>readdir(dir)\<close> yields the
  entries of the node, and the recursive call on \<open>path.join(dir, entry.name)\<close> reads
  the entry's own node. A failing \<open>readdir\<close> rejects the promise, here \<open>Inl\<close>.
\<close>

fun findFiles ::
  "matcher \<Rightarrow> string \<Rightarrow> string \<Rightarrow> node \<Rightarrow> string \<Rightarrow> string \<Rightarrow> fs_error + matched list"
and findEntries ::
  "matcher \<Rightarrow> string \<Rightarrow> string \<Rightarrow> (string \<times> node) list \<Rightarrow> string \<Rightarrow> string
   \<Rightarrow> fs_error + matched list"
where
  "findFiles mm cwd dir (Dir es) pattern baseDir = findEntries mm cwd dir es pattern baseDir"
| "findFiles mm cwd dir Locked pattern baseDir = Inl EACCES"
| "findFiles mm cwd dir (File c) pattern baseDir = Inl ENOTDIR"
| "findFiles mm cwd dir Other pattern baseDir = Inl ENOTDIR"
| "findEntries mm cwd dir [] pattern baseDir = Inr []"
| "findEntries mm cwd dir ((name, child) # rest) pattern baseDir =
     (let fullPath = path_join dir name;
          normalizedPath = normalizePath fullPath
      in if isDirectory child then
           (case findFiles mm cwd fullPath child pattern baseDir of
              Inl e \<Rightarrow> Inl e
            | Inr subdirResults \<Rightarrow>
                (case findEntries mm cwd dir rest pattern baseDir of
                   Inl e \<Rightarrow> Inl e
                 | Inr results \<Rightarrow> Inr (subdirResults @ results)))
         else if isFile child \<and> mm normalizedPath pattern \<lparr>dot = True\<rparr> then
           (case findEntries mm cwd dir rest pattern baseDir of
              Inl e \<Rightarrow> Inl e
            | Inr results \<Rightarrow>
                Inr (\<lparr>absolute = fullPath, relative = path_relative cwd baseDir fullPath\<rparr>
                     # results))
         else findEntries mm cwd dir rest pattern baseDir)"

text \<open>\<open>copyFiles\<close>. A failing \<open>mkdir\<close> or \<open>copyFile\<close> ends the loop; what was written
  before stays on the disk.\<close>

fun copyFiles :: "string \<Rightarrow> matched list \<Rightarrow> string \<Rightarrow> node \<Rightarrow> node \<times> fs_error option" where
  "copyFiles cwd [] output root = (root, None)"
| "copyFiles cwd (file # files) output root =
     (let destPath = path_join output (relative file);
          destDir = path_dirname destPath
      in case mkdir_recursive cwd root destDir of
           Inl e \<Rightarrow> (root, Some e)
         | Inr root1 \<Rightarrow>
             (case copyFile cwd root1 (absolute file) destPath of
                Inl e \<Rightarrow> (root1, Some e)
              | Inr root2 \<Rightarrow> copyFiles cwd files output root2))"

text \<open>The lines the script prints, without the elapsed time.\<close>

datatype console =
    Warning_no_files string
  | Warning_no_base string string
  | Error_no_files
  | Copied nat string
  | Error_during_copy fs_error

definition processPattern ::
  "matcher \<Rightarrow> string \<Rightarrow> node \<Rightarrow> string \<Rightarrow> console list \<times> (fs_error + matched list)" where
  "processPattern mm cwd root pattern =
     (let isGlob = hasGlobChars pattern
      in if \<not> isGlob then
           (case stat_or_null cwd root pattern of
              Some st \<Rightarrow>
                if isFile st
                then ([], Inr [\<lparr>absolute = pattern, relative = path_basename pattern\<rparr>])
                else ([Warning_no_files pattern], Inr [])
            | None \<Rightarrow> ([Warning_no_files pattern], Inr []))
         else
           let baseDir = findGlobBase cwd pattern;
               normalizedPattern = normalizePath pattern
           in case stat_or_null cwd root baseDir of
                Some baseStat \<Rightarrow>
                  if isDirectory baseStat
                  then ([], findFiles mm cwd baseDir baseStat normalizedPattern baseDir)
                  else ([Warning_no_base baseDir pattern], Inr [])
              | None \<Rightarrow> ([Warning_no_base baseDir pattern], Inr []))"

text \<open>The loop of \<open>processAllPatterns\<close> over the patterns, with the console and
  \<open>allFiles\<close> as they grow.\<close>

fun gather ::
  "matcher \<Rightarrow> string \<Rightarrow> node \<Rightarrow> string list \<Rightarrow> console list \<Rightarrow> matched list
   \<Rightarrow> console list \<times> (fs_error + matched list)" where
  "gather mm cwd root [] out allFiles = (out, Inr allFiles)"
| "gather mm cwd root (pattern # patterns) out allFiles =
     (case processPattern mm cwd root pattern of
        (w, Inl e) \<Rightarrow> (out @ w, Inl e)
      | (w, Inr files) \<Rightarrow> gather mm cwd root patterns (out @ w) (allFiles @ files))"

text \<open>A pass ends in one of three ways: it returns, it throws, or it calls
  \<open>process.exit\<close>.\<close>

datatype outcome = Completed | Threw fs_error | Exited nat

definition processAllPatterns ::
  "matcher \<Rightarrow> string \<Rightarrow> string list \<Rightarrow> string \<Rightarrow> node \<Rightarrow> console list \<times> outcome \<times> node" where
  "processAllPatterns mm cwd patterns outputDir root =
     (case gather mm cwd root patterns [] [] of
        (out, Inl e) \<Rightarrow> (out, Threw e, root)
      | (out, Inr allFiles) \<Rightarrow>
          if length allFiles = 0 then (out @ [Error_no_files], Exited 1, root)
          else
            (case copyFiles cwd allFiles outputDir root of
               (root', Some e) \<Rightarrow> (out, Threw e, root')
             | (root', None) \<Rightarrow>
                 (out @ [Copied (length allFiles) outputDir], Completed, root')))"

text \<open>Lines 39 and 40: the last argument is the output directory, the others are the
  patterns, each resolved.\<close>

definition outputDir_of :: "string \<Rightarrow> string list \<Rightarrow> string" where
  "outputDir_of cwd args = path_resolve cwd (last args)"

definition patterns_of :: "string \<Rightarrow> string list \<Rightarrow> string list" where
  "patterns_of cwd args = map (path_resolve cwd) (butlast args)"

section \<open>copy-files: watch mode\<close>

text \<open>
  The body of the timeout set by \<open>handleFileChange\<close>: the pass runs inside
  \<open>try\<close>/\<open>catch\<close>. An exception is logged; \<open>process.exit\<close> is not an exception.
\<close>

datatype process = Running | Terminated nat

definition debounce_callback ::
  "matcher \<Rightarrow> string \<Rightarrow> string list \<Rightarrow> string \<Rightarrow> node \<Rightarrow> console list \<times> process \<times> node" where
  "debounce_callback mm cwd patterns outputDir root =
     (case processAllPatterns mm cwd patterns outputDir root of
        (out, Completed, root') \<Rightarrow> (out, Running, root')
      | (out, Threw e, root') \<Rightarrow> (out @ [Error_during_copy e], Running, root')
      | (out, Exited code, root') \<Rightarrow> (out, Terminated code, root'))"

text \<open>
  The timers of the event loop, on a clock in milliseconds. \<open>debounceTimer\<close> is the
  variable of \<open>setupWatchers\<close>; \<open>timers\<close> are the timeouts still pending, each with its
  handle and the time it is due; \<open>passes\<close> counts the runs of the timeout's body.
\<close>

record watcher =
  debounceTimer :: "nat option"
  timers :: "(nat \<times> nat) list"
  nextId :: nat
  passes :: nat

definition clearTimeout :: "nat \<Rightarrow> watcher \<Rightarrow> watcher" where
  "clearTimeout h w = w\<lparr>timers := filter (\<lambda>(i, due). i \<noteq> h) (timers w)\<rparr>"

definition setTimeout :: "nat \<Rightarrow> nat \<Rightarrow> watcher \<Rightarrow> nat \<times> watcher" where
  "setTimeout now delay w =
     (nextId w, w\<lparr>timers := timers w @ [(nextId w, now + delay)], nextId := Suc (nextId w)\<rparr>)"

definition handleFileChange :: "nat \<Rightarrow> watcher \<Rightarrow> watcher" where
  "handleFileChange now w =
     (let w1 = (case debounceTimer w of Some h \<Rightarrow> clearTimeout h w | None \<Rightarrow> w);
          (h, w2) = setTimeout now 100 w1
      in w2\<lparr>debounceTimer := Some h\<rparr>)"

text \<open>The event loop runs every timeout that is due, then delivers the next change
  event.\<close>

definition run_timers :: "nat \<Rightarrow> watcher \<Rightarrow> watcher" where
  "run_timers now w =
     w\<lparr>timers := filter (\<lambda>(i, due). now < due) (timers w),
       passes := passes w + length (filter (\<lambda>(i, due). due \<le> now) (timers w))\<rparr>"

fun event_loop :: "watcher \<Rightarrow> nat list \<Rightarrow> watcher" where
  "event_loop w [] = w"
| "event_loop w (t # ts) = event_loop (handleFileChange t (run_timers t w)) ts"

definition idle :: watcher where
  "idle = \<lparr>debounceTimer = None, timers = [], nextId = 0, passes = 0\<rparr>"

definition watch_until :: "nat \<Rightarrow> nat list \<Rightarrow> watcher" where
  "watch_until T ts = run_timers T (event_loop idle ts)"

text \<open>A burst: change events in order of time, each less than 100 ms after the one
  before.\<close>

fun burst :: "nat list \<Rightarrow> bool" where
  "burst [] = True"
| "burst [t] = True"
| "burst (t # u # ts) = (t \<le> u \<and> u < t + 100 \<and> burst (u # ts))"

section \<open>A matcher for concrete runs\<close>

text \<open>
  A glob matcher for patterns made of literal characters, \<open>?\<close>, \<open>*\<close> and \<open>**\<close>
  segments, with minimatch's rule for names that start with a dot. It stands for
  minimatch where a run is evaluated on a concrete disk.
\<close>

fun seg_match :: "string \<Rightarrow> string \<Rightarrow> bool" where
  "seg_match [] n = (n = [])"
| "seg_match (p # ps) n =
     (if p = CHR ''*'' then
        seg_match ps n \<or> (case n of [] \<Rightarrow> False | c # cs \<Rightarrow> seg_match (p # ps) cs)
      else (case n of [] \<Rightarrow> False | c # cs \<Rightarrow> (p = CHR ''?'' \<or> p = c) \<and> seg_match ps cs))"

definition hidden :: "string \<Rightarrow> bool" where
  "hidden n = (n \<noteq> [] \<and> hd n = CHR ''.'')"

fun segs_match :: "bool \<Rightarrow> string list \<Rightarrow> string list \<Rightarrow> bool" where
  "segs_match d [] ns = (ns = [])"
| "segs_match d (p # ps) ns =
     (if p = ''**'' then
        segs_match d ps ns \<or>
        (case ns of [] \<Rightarrow> False | n # ns' \<Rightarrow> (d \<or> \<not> hidden n) \<and> segs_match d (p # ps) ns')
      else
        (case ns of
           [] \<Rightarrow> False
         | n # ns' \<Rightarrow> (d \<or> \<not> hidden n \<or> hidden p) \<and> seg_match p n \<and> segs_match d ps ns'))"

definition glob_match :: matcher where
  "glob_match p pattern opts =
     segs_match (dot opts) (split_on CHR ''/'' pattern) (split_on CHR ''/'' p)"

section \<open>Notions used in the statements\<close>



text \<open>A small disk: \<open>/w/src/a/b/icon.svg\<close>, \<open>/w/src/top.svg\<close> and \<open>/w/logo.png\<close>.\<close>

definition disk0 :: node where
  "disk0 =
     Dir [(''w'', Dir [(''src'', Dir [(''a'', Dir [(''b'', Dir [(''icon.svg'', File ''<svg/>'')])]),
                                      (''top.svg'', File ''t'')]),
                       (''logo.png'', File ''PNG'')])]"

text \<open>More disks: \<open>/w/config\<close> with a hidden file, \<open>/w/config\<close> with a directory that
  may not be read, and a disk with \<open>/x.svg\<close> and an empty \<open>/w\<close>.\<close>

definition disk1 :: node where
  "disk1 =
     Dir [(''w'', Dir [(''config'', Dir [(''.env'', File ''KEY=1''),
                                         (''app.json'', File ''{}'')])])]"

definition disk2 :: node where
  "disk2 =
     Dir [(''w'', Dir [(''config'', Dir [(''app.json'', File ''{}''),
                                         (''secret'', Locked)])])]"

definition disk3 :: node where
  "disk3 = Dir [(''x.svg'', File ''<svg/>''), (''w'', Dir [])]"

text \<open>
  The regular files under a directory: \<open>file_under dir n p\<close> says that \<open>p\<close> is the
  path, built with \<open>path.join\<close> from \<open>dir\<close>, of a regular file reached from the
  directory node \<open>n\<close> through directories only. \<open>read_error n\<close> says that \<open>n\<close>, or a
  directory reached from it, cannot be read.
\<close>

inductive file_under :: "string \<Rightarrow> node \<Rightarrow> string \<Rightarrow> bool" where
  here: "(name, File c) \<in> set es \<Longrightarrow> file_under dir (Dir es) (path_join dir name)"
| below: "(name, child) \<in> set es \<Longrightarrow> isDirectory child \<Longrightarrow>
          file_under (path_join dir name) child p \<Longrightarrow> file_under dir (Dir es) p"

fun read_error :: "node \<Rightarrow> bool" where
  "read_error (Dir es) = (\<exists>e \<in> set es. isDirectory (snd e) \<and> read_error (snd e))"
| "read_error n = True"

definition found ::
  "matcher \<Rightarrow> string \<Rightarrow> string \<Rightarrow> node \<Rightarrow> string \<Rightarrow> string \<Rightarrow> fs_error + matched list \<Rightarrow> bool" where
  "found mm cwd dir n pattern baseDir res =
     ((read_error n \<longrightarrow> (\<exists>e. res = Inl e))
      \<and> (\<not> read_error n \<longrightarrow>
           (\<exists>rs. res = Inr rs
              \<and> set (map absolute rs) =
                  {p. file_under dir n p \<and> mm (normalizePath p) pattern \<lparr>dot = True\<rparr>}
              \<and> (\<forall>r \<in> set rs. relative r = path_relative cwd baseDir (absolute r)))))"

text \<open>The state of the timers after a change event at time \<open>t\<close>: one timeout is
  pending, due at \<open>t + 100\<close>, and \<open>debounceTimer\<close> holds its handle.\<close>

definition armed :: "watcher \<Rightarrow> nat \<Rightarrow> nat \<Rightarrow> bool" where
  "armed w t n \<longleftrightarrow>
     (\<exists>h. debounceTimer w = Some h \<and> timers w = [(h, t + 100)]) \<and> passes w = n"

text \<open>
  The places a copy touches: the source of a match, its destination
  \<open>path.join(output, file.relative)\<close>, and the directory of the destination.
\<close>

definition source_of :: "string \<Rightarrow> matched \<Rightarrow> string list" where
  "source_of cwd file = locate cwd (absolute file)"

definition target_of :: "string \<Rightarrow> string \<Rightarrow> matched \<Rightarrow> string list" where
  "target_of cwd output file = locate cwd (path_join output (relative file))"

definition target_dir_of :: "string \<Rightarrow> string \<Rightarrow> matched \<Rightarrow> string list" where
  "target_dir_of cwd output file = locate cwd (path_dirname (path_join output (relative file)))"

text \<open>What \<open>Stats.isDirectory()\<close> says of a path.\<close>

definition dir_at :: "node \<Rightarrow> string list \<Rightarrow> bool" where
  "dir_at root q \<longleftrightarrow> stat_at root q = Some EDir \<or> stat_at root q = Some ELocked"

text \<open>
  The effect of one round of the loop in \<open>copyFiles\<close>, from \<open>root\<close> to \<open>root2\<close>: the
  source \<open>s\<close> held the bytes \<open>c\<close>, the destination \<open>d\<close> holds them now, the directory
  \<open>P\<close> exists, and nothing else differs but the directories that were created on the
  way to \<open>P\<close>.
\<close>

definition copied :: "node \<Rightarrow> node \<Rightarrow> string list \<Rightarrow> string list \<Rightarrow> string list \<Rightarrow> bytes \<Rightarrow> bool" where
  "copied root root2 s d P c \<longleftrightarrow>
     stat_at root s = Some (EFile c)
     \<and> (\<forall>r. stat_at root2 r =
            (if r = d then Some (EFile c)
             else case stat_at root r of
                    Some e \<Rightarrow> Some e
                  | None \<Rightarrow> if prefix r P then Some EDir else None))
     \<and> dir_at root2 P
     \<and> (stat_at root d = None \<or> (\<exists>c0. stat_at root d = Some (EFile c0)))"



text \<open>
  A proper name is what \<open>readdir\<close> yields for an entry: not empty, without a slash,
  and neither \<open>.\<close> nor \<open>..\<close>. A well-formed disk has proper names only, each at most
  once in a directory. \<open>abs_path\<close> writes a list of names as an absolute path.
\<close>

definition proper :: "string \<Rightarrow> bool" where
  "proper s \<longleftrightarrow> s \<noteq> [] \<and> CHR ''/'' \<notin> set s \<and> s \<noteq> ''.'' \<and> s \<noteq> ''..''"

definition abs_path :: "string list \<Rightarrow> string" where
  "abs_path xs = CHR ''/'' # join_with ''/'' xs"

fun well_formed :: "node \<Rightarrow> bool" where
  "well_formed (Dir es) =
     (distinct (map fst es) \<and> (\<forall>e \<in> set es. proper (fst e) \<and> well_formed (snd e)))"
| "well_formed n = True"

text \<open>
  Two places on the disk lie apart when neither is inside the other. The place of a
  pattern is the directory its walk starts from, or the path itself for a literal
  path.
\<close>

definition apart :: "string list \<Rightarrow> string list \<Rightarrow> bool" where
  "apart a b \<longleftrightarrow> \<not> prefix a b \<and> \<not> prefix b a"


text \<open>A disk whose working directory \<open>/h/p*\<close> has a wildcard character in its name.\<close>

definition disk4 :: node where
  "disk4 = Dir [(''h'', Dir [(''p*'', Dir [(''logo.png'', File ''PNG'')])])]"

section \<open>Properties of the path helpers\<close>



section \<open>Absolute paths\<close>

text \<open>For a path \<open>abs_path xs\<close>, made of a slash and proper names joined by slashes, the
  path functions work on the list of names.\<close>

text \<open>For a path \<open>abs_path xs\<close>, made of a slash and proper names joined by slashes, the
  path functions work on the list of names.\<close>

lemma split_on_nonempty: "split_on c s \<noteq> []"
  by (induction s) (auto split: list.splits)

lemma split_on_free: "c \<notin> set s \<Longrightarrow> split_on c s = [s]"
  by (induction s) auto

lemma split_on_at: "c \<notin> set s \<Longrightarrow> split_on c (s @ c # t) = s # split_on c t"
  by (induction s) auto

lemma split_join:
  "xs \<noteq> [] \<Longrightarrow> \<forall>x \<in> set xs. c \<notin> set x \<Longrightarrow> split_on c (join_with [c] xs) = xs"
proof (induction xs rule: induct_list012)
  case (3 x y ys)
  then show ?case by (simp add: split_on_at)
qed (simp_all add: split_on_free)

lemma join_snoc: "xs \<noteq> [] \<Longrightarrow> join_with sep (xs @ [b]) = join_with sep xs @ sep @ b"
  by (induction xs rule: induct_list012) auto

lemma join_nonempty: "xs \<noteq> [] \<Longrightarrow> \<forall>x \<in> set xs. x \<noteq> [] \<Longrightarrow> join_with sep xs \<noteq> []"
  by (induction xs rule: induct_list012) auto

lemma proper_step: "proper s \<Longrightarrow> normalize_step b res s = res @ [s]"
  by (auto simp: normalize_step_def proper_def)

lemma foldl_proper:
  "\<forall>x \<in> set xs. proper x \<Longrightarrow> foldl (normalize_step b) acc xs = acc @ xs"
  by (induction xs arbitrary: acc) (simp_all add: proper_step)

lemma empty_step: "normalize_step b res [] = res"
  by (simp add: normalize_step_def)

lemma split_abs_slash:
  assumes "\<forall>x \<in> set xs. proper x"
  shows "foldl (normalize_step b) [] (split_on CHR ''/'' (abs_path xs @ ''/'' @ t)) =
         foldl (normalize_step b) xs (split_on CHR ''/'' t)"
proof (cases "xs = []")
  case True
  then show ?thesis
    by (simp add: abs_path_def empty_step)
next
  case False
  have free: "\<forall>x \<in> set xs. CHR ''/'' \<notin> set x"
    using assms by (auto simp: proper_def)
  have "join_with ''/'' xs @ ''/'' @ t = join_with ''/'' xs @ CHR ''/'' # t" by simp
  have sp: "split_on CHR ''/'' (join_with ''/'' xs @ CHR ''/'' # t) = xs @ split_on CHR ''/'' t"
    using False free
  proof (induction xs rule: induct_list012)
    case (3 x y ys)
    then show ?case by (simp add: split_on_at)
  qed (simp_all add: split_on_at)
  show ?thesis
    using assms by (simp add: abs_path_def sp empty_step foldl_proper)
qed

lemma normalizeString_abs:
  assumes "\<forall>x \<in> set xs. proper x"
  shows "normalizeString (abs_path xs @ ''/'') b = join_with ''/'' xs"
  using split_abs_slash [OF assms, of b "[]"]
  by (simp add: normalizeString_def empty_step)

lemma path_resolve_abs:
  assumes "\<forall>x \<in> set xs. proper x"
  shows "path_resolve cwd (abs_path xs) = abs_path xs"
proof -
  have "hd (abs_path xs) = CHR ''/''" "abs_path xs \<noteq> []"
    by (simp_all add: abs_path_def)
  then show ?thesis
    using normalizeString_abs [OF assms, of False]
    by (simp add: path_resolve_def Let_def) (simp add: abs_path_def)
qed

lemma segments_abs:
  assumes "\<forall>x \<in> set xs. proper x"
  shows "segments (abs_path xs) = xs"
proof (cases "xs = []")
  case True
  then show ?thesis by (simp add: segments_def abs_path_def)
next
  case False
  have free: "\<forall>x \<in> set xs. CHR ''/'' \<notin> set x" and ne: "\<forall>x \<in> set xs. x \<noteq> []"
    using assms by (auto simp: proper_def)
  have "split_on CHR ''/'' (join_with ''/'' xs) = xs"
    using split_join [OF False free] by simp
  then show ?thesis
    using ne by (simp add: segments_def abs_path_def filter_id_conv)
qed

lemma locate_abs:
  "\<forall>x \<in> set xs. proper x \<Longrightarrow> locate cwd (abs_path xs) = xs"
  by (simp add: locate_def path_resolve_abs segments_abs)

lemma path_join_abs:
  assumes "\<forall>x \<in> set xs. proper x" and "proper name"
  shows "path_join (abs_path xs) name = abs_path (xs @ [name])"
proof -
  have ne: "name \<noteq> []" and free: "CHR ''/'' \<notin> set name"
    using assms(2) by (auto simp: proper_def)
  let ?j = "abs_path xs @ ''/'' @ name"
  have j: "join_with ''/'' (filter (\<lambda>x. x \<noteq> []) [abs_path xs, name]) = ?j"
    using ne by (simp add: abs_path_def)
  have last: "last ?j \<noteq> CHR ''/''"
    using ne free by (metis append_is_Nil_conv last_appendR last_in_set)
  have "foldl (normalize_step False) [] (split_on CHR ''/'' ?j) = xs @ [name]"
    using split_abs_slash [OF assms(1), of False name] free assms(2)
    by (simp add: split_on_free proper_step)
  then have ns: "normalizeString ?j False = join_with ''/'' (xs @ [name])"
    by (simp add: normalizeString_def)
  have "join_with ''/'' (xs @ [name]) \<noteq> []"
    using assms by (intro join_nonempty) (auto simp: proper_def)
  then have "path_normalize ?j = abs_path (xs @ [name])"
    using last ns by (simp add: path_normalize_def Let_def abs_path_def)
  then show ?thesis
    using ne by (simp add: path_join_def Let_def abs_path_def)
qed


lemma path_dirname_abs:
  assumes "\<forall>x \<in> set xs. proper x" and "proper b"
  shows "path_dirname (abs_path (xs @ [b])) = abs_path xs"
proof -
  have bne: "b \<noteq> []" and bfree: "CHR ''/'' \<notin> set b"
    using assms(2) by (auto simp: proper_def)
  have d1: "dropWhile (\<lambda>c. c = CHR ''/'') (rev b @ t) = rev b @ t" for t
    using bne bfree by (cases "rev b") (auto simp: rev_eq_Cons_iff)
  have d2: "dropWhile (\<lambda>c. c \<noteq> CHR ''/'') (rev b @ t) = dropWhile (\<lambda>c. c \<noteq> CHR ''/'') t" for t
    by (rule dropWhile_append2) (use bfree in auto)
  show ?thesis
  proof (cases "xs = []")
    case True
    then show ?thesis
      using d1 [of "[]"] d2 [of "[]"] by (simp add: path_dirname_def abs_path_def)
  next
    case False
    have jne: "join_with ''/'' xs \<noteq> []"
      using False assms(1) by (intro join_nonempty) (auto simp: proper_def)
    have "join_with ''/'' (xs @ [b]) = join_with ''/'' xs @ ''/'' @ b"
      using False by (rule join_snoc)
    then have r: "rev (join_with ''/'' (xs @ [b])) = rev b @ CHR ''/'' # rev (join_with ''/'' xs)"
      by simp
    show ?thesis
      using jne by (simp add: path_dirname_def abs_path_def r d1 d2 Let_def)
  qed
qed

lemma path_basename_abs:
  assumes "proper b"
  shows "path_basename (abs_path (xs @ [b])) = b"
proof -
  have bne: "b \<noteq> []" and bfree: "CHR ''/'' \<notin> set b"
    using assms by (auto simp: proper_def)
  obtain t where shape: "abs_path (xs @ [b]) = t @ CHR ''/'' # b"
  proof (cases "xs = []")
    case True
    then have "abs_path (xs @ [b]) = [] @ CHR ''/'' # b" by (simp add: abs_path_def)
    then show ?thesis by (rule that)
  next
    case False
    then have "abs_path (xs @ [b]) = (CHR ''/'' # join_with ''/'' xs) @ CHR ''/'' # b"
      by (simp add: abs_path_def join_snoc)
    then show ?thesis by (rule that)
  qed
  have d1: "dropWhile (\<lambda>c. c = CHR ''/'') (rev b @ u) = rev b @ u" for u
    using bne bfree by (cases "rev b") (auto simp: rev_eq_Cons_iff)
  have t1: "takeWhile (\<lambda>c. c \<noteq> CHR ''/'') (rev b @ CHR ''/'' # u) = rev b" for u
    using bfree by (auto simp: takeWhile_tail)
  show ?thesis
    by (simp add: path_basename_def shape d1 t1)
qed

lemma split_on_free_segments: "\<forall>z \<in> set (split_on c s). c \<notin> set z"
  by (induction s) (auto split: list.splits)

lemma step_keeps_proper:
  assumes "\<forall>x \<in> set acc. proper x" and "CHR ''/'' \<notin> set z"
  shows "\<forall>x \<in> set (normalize_step False acc z). proper x"
proof -
  have "\<forall>x \<in> set (butlast acc). proper x"
    using assms(1) by (auto dest: in_set_butlastD)
  with assms show ?thesis
    by (auto simp: normalize_step_def proper_def)
qed

lemma foldl_keeps_proper:
  "\<forall>x \<in> set acc. proper x \<Longrightarrow> \<forall>z \<in> set zs. CHR ''/'' \<notin> set z \<Longrightarrow>
   \<forall>x \<in> set (foldl (normalize_step False) acc zs). proper x"
proof (induction zs arbitrary: acc)
  case Nil
  then show ?case by simp
next
  case (Cons z zs)
  have "\<forall>x \<in> set (normalize_step False acc z). proper x"
    using Cons.prems by (intro step_keeps_proper) auto
  with Cons show ?case by simp
qed

lemma path_resolve_is_abs:
  assumes "hd cwd = CHR ''/'' \<and> cwd \<noteq> [] \<or> hd p = CHR ''/'' \<and> p \<noteq> []"
  shows "\<exists>xs. (\<forall>x \<in> set xs. proper x) \<and> path_resolve cwd p = abs_path xs"
proof -
  define r2 where "r2 = (if (p \<noteq> [] \<and> hd p = CHR ''/'') \<or> cwd = [] then (if p = [] then [] else p @ ''/'')
                         else cwd @ ''/'' @ (if p = [] then [] else p @ ''/''))"
  define xs where "xs = foldl (normalize_step False) [] (split_on CHR ''/'' r2)"
  have "\<forall>x \<in> set xs. proper x"
    unfolding xs_def by (intro foldl_keeps_proper) (simp_all add: split_on_free_segments)
  moreover have "path_resolve cwd p = abs_path xs"
    using assms unfolding path_resolve_def Let_def xs_def r2_def abs_path_def normalizeString_def
    by auto
  ultimately show ?thesis by blast
qed




lemma basename_no_slash: "CHR ''/'' \<notin> set (path_basename p)"
proof -
  have "\<forall>c \<in> set (takeWhile (\<lambda>c. c \<noteq> CHR ''/'') xs). c \<noteq> CHR ''/''" for xs
    by (auto dest: set_takeWhileD)
  then show ?thesis
    unfolding path_basename_def by force
qed





section \<open>The glob base resolver\<close>

lemma findGlobBase_examples:
  "findGlobBase ''/w'' ''foo/ba*r'' = ''/w/foo''
   \<and> findGlobBase ''/w'' ''assets/img-*.png'' = ''/w/assets''
   \<and> findGlobBase ''/w'' ''/w/docs/readme.md'' = ''/w/docs''"
  by code_simp





text \<open>
  C1. The claim is that for every pattern the resolver returns the deepest directory
  free of wildcards: the text before the first wildcard, cut at its last separator,
  resolved to an absolute path. The code does not do so for a pattern whose first
  character is a wildcard: the test \<open>!match?.index\<close> takes index 0 for "no match" and
  returns \<open>path.dirname\<close> of the pattern, which may contain wildcards and is not
  absolute. Nor does it for a pattern directly under the root, which the command line
  can pass: the text before the separator is empty, and resolving the empty string
  gives the working directory instead of the root, so that a pass started in \<open>/w\<close>
  does not find \<open>/x.svg\<close> for the pattern \<open>/*.svg\<close>.
\<close>

theorem findGlobBase_leading_wildcard:
  "findGlobBase ''/w'' ''*/foo/bar.txt'' = ''*/foo''
   \<and> findGlobBase ''/w'' ''*.txt'' = ''.''
   \<and> patterns_of ''/w'' [''/*.svg'', ''dist''] = [''/*.svg'']
   \<and> findGlobBase ''/w'' ''/*.svg'' = ''/w''
   \<and> glob_match ''/x.svg'' ''/*.svg'' \<lparr>dot = True\<rparr>
   \<and> processAllPatterns glob_match ''/w'' [''/*.svg''] ''/w/dist'' disk3 =
       ([Error_no_files], Exited 1, disk3)"
  by code_simp

section \<open>Reading the environment\<close>

text \<open>
  C10, as the claim states it: for every key that is not set, \<open>get\<close> without a default
  returns the six-character string "undefined". For the key \<open>PORT\<close> the string
  returned is "undefined", and it does not have six characters; for the key
  \<open>toString\<close>, which is not set either, what is returned is not that string but the
  function inherited from \<open>Object.prototype\<close>.
\<close>

theorem get_undefined_not_six_characters:
  "get Map.empty ''PORT'' None = Str ''undefined''
   \<and> length ''undefined'' \<noteq> (6::nat)
   \<and> get Map.empty ''toString'' None = Inherited ''toString''
   \<and> get Map.empty ''toString'' None \<noteq> Str ''undefined''"
  by (simp add: get_def env_property_def object_prototype_def)

text \<open>
  C10, amended: for a key that is not set and is not the name of a property inherited
  from \<open>Object.prototype\<close>, \<open>get\<close> without a default returns the string "undefined",
  of nine characters; for a key that is not set and is such a name, \<open>get\<close> returns the
  inherited property, whatever the default; for a key set to the empty string, \<open>get\<close>
  returns the default turned into text, not the empty string.
\<close>

theorem get_missing_or_empty:
  "(env key = None \<and> key \<notin> set object_prototype \<longrightarrow>
      get env key None = Str ''undefined''
      \<and> (\<forall>s. get env key None = Str s \<longrightarrow> length s = 9))
   \<and> (env key = None \<and> key \<in> set object_prototype \<longrightarrow> get env key d = Inherited key)
   \<and> (env key = Some [] \<longrightarrow> get env key d = Str (template d))"
  by (auto simp: get_def env_property_def)

theorem get_missing_or_empty_witness:
  "get Map.empty ''PORT'' None = Str ''undefined''
   \<and> get Map.empty ''constructor'' (Some ''x'') = Inherited ''constructor''
   \<and> get [''PORT'' \<mapsto> []] ''PORT'' (Some ''8000'') = Str ''8000''"
proof -
  have n: "''PORT'' \<notin> set object_prototype" "''constructor'' \<in> set object_prototype"
    by (simp_all add: object_prototype_def)
  show ?thesis
    using get_missing_or_empty [of Map.empty "''PORT''" "None"]
          get_missing_or_empty [of Map.empty "''constructor''" "Some ''x''"]
          get_missing_or_empty [of "[''PORT'' \<mapsto> []]" "''PORT''" "Some ''8000''"]
          n
    by simp
qed

section \<open>The file system: what \<open>mkdir\<close> and a write change\<close>

lemma stat_at_Nil [simp]: "stat_at n [] = Some (entry_of n)"
  by (simp add: stat_at_def)

lemma stat_at_Dir [simp]:
  "stat_at (Dir es) (s # ss) = (case map_of es s of None \<Rightarrow> None | Some c \<Rightarrow> stat_at c ss)"
  by (simp add: stat_at_def split: option.splits)

lemma stat_at_leaf [simp]:
  "stat_at (File c) (s # ss) = None"
  "stat_at Locked (s # ss) = None"
  "stat_at Other (s # ss) = None"
  by (simp_all add: stat_at_def)

lemma walk_File_iff: "walk n q = Inr (File c) \<longleftrightarrow> stat_at n q = Some (EFile c)"
proof -
  have "entry_of m = EFile c \<longleftrightarrow> m = File c" for m
    by (cases m) auto
  then show ?thesis
    by (auto simp: stat_at_def split: sum.splits)
qed

lemma stat_at_fresh_dirs:
  "stat_at (fresh_dirs ss) r = (if prefix r ss then Some EDir else None)"
proof (induction ss arbitrary: r)
  case Nil
  then show ?case by (cases r) auto
next
  case (Cons s ss)
  then show ?case by (cases r) auto
qed

lemma mkdirp_stat:
  "mkdirp n q = Inr n' \<Longrightarrow>
   stat_at n' r = (case stat_at n r of Some e \<Rightarrow> Some e
                   | None \<Rightarrow> if prefix r q then Some EDir else None)"
proof (induction n q arbitrary: n' r rule: mkdirp.induct)
  case (5 es s ss)
  show ?case
  proof (cases r)
    case Nil
    with "5.prems" show ?thesis by (auto split: option.splits sum.splits)
  next
    case (Cons s' rs)
    show ?thesis
    proof (cases "map_of es s")
      case None
      with "5.prems" have n': "n' = Dir (AList.update s (fresh_dirs ss) es)" by simp
      show ?thesis
        using None by (auto simp: n' Cons update_conv' stat_at_fresh_dirs split: option.splits)
    next
      case (Some c)
      with "5.prems" obtain c' where c': "mkdirp c ss = Inr c'" and n': "n' = Dir (AList.update s c' es)"
        by (auto split: sum.splits)
      have "stat_at c' rs = (case stat_at c rs of Some e \<Rightarrow> Some e
                   | None \<Rightarrow> if prefix rs ss then Some EDir else None)"
        using "5.IH" Some c' by simp
      then show ?thesis
        using Some by (auto simp: n' Cons update_conv' split: option.splits)
    qed
  qed
next
  case (1 es)
  then show ?case by (cases r) (auto split: option.splits)
next
  case 2
  then show ?case by (cases r) (auto split: option.splits)
qed simp_all

lemma mkdirp_is_dir:
  "mkdirp n q = Inr n' \<Longrightarrow> stat_at n' q = Some EDir \<or> stat_at n' q = Some ELocked"
proof (induction n q arbitrary: n' rule: mkdirp.induct)
  case (5 es s ss)
  show ?case
  proof (cases "map_of es s")
    case None
    with "5.prems" show ?thesis
      by (auto simp: update_conv' stat_at_fresh_dirs)
  next
    case (Some c)
    with "5.prems" obtain c' where c': "mkdirp c ss = Inr c'" and n': "n' = Dir (AList.update s c' es)"
      by (auto split: sum.splits)
    with "5.IH" Some show ?thesis
      by (auto simp: update_conv')
  qed
qed auto


lemma write_file_stat:
  "write_file n q c = Inr n' \<Longrightarrow>
   stat_at n' r = (if r = q then Some (EFile c) else stat_at n r)"
proof (induction n q c arbitrary: n' r rule: write_file.induct)
  case (1 old c)
  then show ?case by (cases r) auto
next
  case (5 es s ss c)
  show ?case
  proof (cases r)
    case Nil
    with "5.prems" show ?thesis by (auto split: option.splits sum.splits if_splits)
  next
    case (Cons s' rs)
    show ?thesis
    proof (cases "map_of es s")
      case None
      with "5.prems" have ss: "ss = []" and n': "n' = Dir (AList.update s (File c) es)"
        by (auto split: if_splits)
      show ?thesis
        using None by (cases rs) (auto simp: n' ss Cons update_conv' split: option.splits)
    next
      case (Some ch)
      with "5.prems" obtain ch' where ch': "write_file ch ss c = Inr ch'"
        and n': "n' = Dir (AList.update s ch' es)"
        by (auto split: sum.splits)
      have "stat_at ch' rs = (if rs = ss then Some (EFile c) else stat_at ch rs)"
        using "5.IH" Some ch' by simp
      then show ?thesis
        using Some by (auto simp: n' Cons update_conv' split: option.splits)
    qed
  qed
qed simp_all

lemma write_file_pre:
  "write_file n q c = Inr n' \<Longrightarrow> stat_at n q = None \<or> (\<exists>c0. stat_at n q = Some (EFile c0))"
proof (induction n q c arbitrary: n' rule: write_file.induct)
  case (5 es s ss c)
  then show ?case
    by (cases "map_of es s") (auto split: sum.splits if_splits)
qed auto


lemma walk_append:
  "walk n xs = Inr m \<Longrightarrow> walk n (xs @ ys) = walk m ys"
proof (induction n xs rule: walk.induct)
  case (2 es s ss)
  then show ?case by (auto split: option.splits)
qed simp_all

lemma well_formed_child:
  assumes "well_formed (Dir es)" and "(name, child) \<in> set es"
  shows "map_of es name = Some child \<and> proper name \<and> well_formed child"
  using assms by (auto simp: map_of_eq_Some_iff)

lemma well_formed_walk:
  "well_formed n \<Longrightarrow> walk n xs = Inr m \<Longrightarrow> well_formed m"
proof (induction n xs rule: walk.induct)
  case (2 es s ss)
  then obtain c where c: "map_of es s = Some c" "walk c ss = Inr m"
    by (auto split: option.splits)
  then have "(s, c) \<in> set es" by (auto dest: map_of_SomeD)
  with 2 c show ?case by auto
qed simp_all






section \<open>The recursive file finder\<close>

inductive_simps file_under_Dir: "file_under dir (Dir es) p"

lemma file_under_Nil: "\<not> file_under dir (Dir []) p"
  by (simp add: file_under_Dir)

lemma file_under_Cons:
  "file_under dir (Dir ((name, child) # rest)) p \<longleftrightarrow>
     (isFile child \<and> p = path_join dir name)
     \<or> (isDirectory child \<and> file_under (path_join dir name) child p)
     \<or> file_under dir (Dir rest) p"
proof
  assume "file_under dir (Dir ((name, child) # rest)) p"
  then show "(isFile child \<and> p = path_join dir name)
     \<or> (isDirectory child \<and> file_under (path_join dir name) child p)
     \<or> file_under dir (Dir rest) p"
  proof (cases rule: file_under.cases)
    case (here n c)
    then show ?thesis
      by (auto simp: isFile_def intro: file_under.here)
  next
    case (below n ch)
    then show ?thesis
      by (auto intro: file_under.below)
  qed
next
  assume "(isFile child \<and> p = path_join dir name)
     \<or> (isDirectory child \<and> file_under (path_join dir name) child p)
     \<or> file_under dir (Dir rest) p"
  then consider (f) "isFile child" "p = path_join dir name"
    | (d) "isDirectory child" "file_under (path_join dir name) child p"
    | (r) "file_under dir (Dir rest) p"
    by blast
  then show "file_under dir (Dir ((name, child) # rest)) p"
  proof cases
    case f
    then obtain c where "child = File c"
      by (cases child) (auto simp: isFile_def)
    with f show ?thesis
      using file_under.here [of name c "(name, child) # rest" dir] by simp
  next
    case d
    then show ?thesis
      using file_under.below [of name child "(name, child) # rest" dir p] by simp
  next
    case r
    then show ?thesis
    proof (cases rule: file_under.cases)
      case (here n c)
      then show ?thesis
        using file_under.here [of n c "(name, child) # rest" dir] by simp
    next
      case (below n ch)
      then show ?thesis
        using file_under.below [of n ch "(name, child) # rest" dir p] by simp
    qed
  qed
qed

lemma read_error_Cons:
  "read_error (Dir ((name, child) # rest)) \<longleftrightarrow>
     (isDirectory child \<and> read_error child) \<or> read_error (Dir rest)"
  by auto

lemma findFiles_found:
  "found mm cwd dir n pattern baseDir (findFiles mm cwd dir n pattern baseDir)"
  "found mm cwd dir (Dir es) pattern baseDir (findEntries mm cwd dir es pattern baseDir)"
proof (induction mm cwd dir n pattern baseDir and mm cwd dir es pattern baseDir
       rule: findFiles_findEntries.induct)
  case (1 mm cwd dir es pattern baseDir)
  then show ?case by simp
next
  case (2 mm cwd dir pattern baseDir)
  show ?case by (simp add: found_def)
next
  case (3 mm cwd dir c pattern baseDir)
  show ?case by (simp add: found_def)
next
  case (4 mm cwd dir pattern baseDir)
  show ?case by (simp add: found_def)
next
  case (5 mm cwd dir pattern baseDir)
  show ?case by (simp add: found_def file_under_Nil)
next
  case (6 mm cwd dir name child rest pattern baseDir)
  let ?full = "path_join dir name"
  show ?case
  proof (cases "isDirectory child")
    case True
    then have nf: "\<not> isFile child"
      by (auto simp: isFile_def isDirectory_def split: node.splits)
    have sub: "found mm cwd ?full child pattern baseDir (findFiles mm cwd ?full child pattern baseDir)"
      using "6.IH"(1) True by simp
    show ?thesis
    proof (cases "findFiles mm cwd ?full child pattern baseDir")
      case (Inl e)
      with sub have "read_error child" by (auto simp: found_def)
      with True Inl show ?thesis
        unfolding found_def read_error_Cons by simp
    next
      case (Inr subdirResults)
      have rest: "found mm cwd dir (Dir rest) pattern baseDir (findEntries mm cwd dir rest pattern baseDir)"
        using "6.IH"(2) True Inr by simp
      from sub Inr have ok: "\<not> read_error child"
        and subset: "set (map absolute subdirResults) =
          {p. file_under ?full child p \<and> mm (normalizePath p) pattern \<lparr>dot = True\<rparr>}"
        and subrel: "\<forall>r \<in> set subdirResults. relative r = path_relative cwd baseDir (absolute r)"
        by (auto simp: found_def)
      show ?thesis
      proof (cases "findEntries mm cwd dir rest pattern baseDir")
        case (Inl e)
        with rest have "read_error (Dir rest)" by (auto simp: found_def)
        with True Inl Inr show ?thesis
          unfolding found_def read_error_Cons by simp
      next
        case r: (Inr results)
        with rest have ok': "\<not> read_error (Dir rest)"
          and rset: "set (map absolute results) =
            {p. file_under dir (Dir rest) p \<and> mm (normalizePath p) pattern \<lparr>dot = True\<rparr>}"
          and rrel: "\<forall>r \<in> set results. relative r = path_relative cwd baseDir (absolute r)"
          by (auto simp: found_def)
        have res: "findEntries mm cwd dir ((name, child) # rest) pattern baseDir =
                   Inr (subdirResults @ results)"
          using True Inr r by simp
        have "set (map absolute (subdirResults @ results)) =
          {p. file_under dir (Dir ((name, child) # rest)) p \<and> mm (normalizePath p) pattern \<lparr>dot = True\<rparr>}"
          unfolding file_under_Cons using True nf subset rset by auto
        then show ?thesis
          unfolding found_def read_error_Cons res using ok ok' True subrel rrel by auto
      qed
    qed
  next
    case False
    show ?thesis
    proof (cases "isFile child \<and> mm (normalizePath ?full) pattern \<lparr>dot = True\<rparr>")
      case True
      have rest: "found mm cwd dir (Dir rest) pattern baseDir (findEntries mm cwd dir rest pattern baseDir)"
        using "6.IH"(3) False True by simp
      show ?thesis
      proof (cases "findEntries mm cwd dir rest pattern baseDir")
        case (Inl e)
        with rest have "read_error (Dir rest)" by (auto simp: found_def)
        with False True Inl show ?thesis
          unfolding found_def read_error_Cons by simp
      next
        case r: (Inr results)
        with rest have ok': "\<not> read_error (Dir rest)"
          and rset: "set (map absolute results) =
            {p. file_under dir (Dir rest) p \<and> mm (normalizePath p) pattern \<lparr>dot = True\<rparr>}"
          and rrel: "\<forall>r \<in> set results. relative r = path_relative cwd baseDir (absolute r)"
          by (auto simp: found_def)
        let ?m = "\<lparr>absolute = ?full, relative = path_relative cwd baseDir ?full\<rparr>"
        have res: "findEntries mm cwd dir ((name, child) # rest) pattern baseDir = Inr (?m # results)"
          using False True r by (simp add: Let_def)
        have "set (map absolute (?m # results)) =
          {p. file_under dir (Dir ((name, child) # rest)) p \<and> mm (normalizePath p) pattern \<lparr>dot = True\<rparr>}"
          unfolding file_under_Cons using False True rset by auto
        then show ?thesis
          unfolding found_def read_error_Cons res using ok' False rrel by auto
      qed
    next
      case nomatch: False
      have rest: "found mm cwd dir (Dir rest) pattern baseDir (findEntries mm cwd dir rest pattern baseDir)"
        using "6.IH"(4) False nomatch by simp
      have res: "findEntries mm cwd dir ((name, child) # rest) pattern baseDir =
                 findEntries mm cwd dir rest pattern baseDir"
        using False nomatch by auto
      have "{p. file_under dir (Dir ((name, child) # rest)) p \<and> mm (normalizePath p) pattern \<lparr>dot = True\<rparr>}
          = {p. file_under dir (Dir rest) p \<and> mm (normalizePath p) pattern \<lparr>dot = True\<rparr>}"
        unfolding file_under_Cons using False nomatch by auto
      then show ?thesis
        using rest False unfolding found_def read_error_Cons res by simp
    qed
  qed
qed

text \<open>
  On a well-formed disk the directory argument of \<open>findFiles\<close> and the disk agree: the
  path \<open>path.join(dir, entry.name)\<close> names the node of the entry.
\<close>

lemma readdir_child:
  assumes "well_formed root" and "\<forall>x \<in> set ds. proper x"
    and "walk root ds = Inr (Dir es)" and "(name, child) \<in> set es"
  shows "stat cwd root (path_join (abs_path ds) name) = Inr child"
proof -
  have "well_formed (Dir es)"
    using assms(1,3) by (rule well_formed_walk)
  from well_formed_child [OF this assms(4)]
  have m: "map_of es name = Some child" and pn: "proper name"
    by auto
  have "locate cwd (path_join (abs_path ds) name) = ds @ [name]"
    using assms(2) pn by (simp add: path_join_abs locate_abs)
  moreover have "walk root (ds @ [name]) = Inr child"
    using walk_append [OF assms(3), of "[name]"] m by simp
  ultimately show ?thesis
    by (simp add: stat_def)
qed


text \<open>
  C5. When a directory below the starting directory (or that directory itself) cannot be
  read, \<open>findFiles\<close> fails with an error. Otherwise it returns exactly the regular
  files under the directory, through every subdirectory, whose normalized path the
  matcher accepts with the option \<open>dot: true\<close>, each with its path relative to
  \<open>baseDir\<close>.
\<close>

theorem findFiles_exact:
  "(read_error n \<longrightarrow> (\<exists>e. findFiles mm cwd dir n pattern baseDir = Inl e))
   \<and> (\<not> read_error n \<longrightarrow>
        (\<exists>rs. findFiles mm cwd dir n pattern baseDir = Inr rs
           \<and> set (map absolute rs) =
               {p. file_under dir n p \<and> mm (normalizePath p) pattern \<lparr>dot = True\<rparr>}
           \<and> (\<forall>r \<in> set rs. relative r = path_relative cwd baseDir (absolute r))))"
  using findFiles_found(1) [of mm cwd dir n pattern baseDir]
  unfolding found_def by blast

theorem findFiles_exact_witness:
  "findFiles glob_match ''/w'' ''/w/config'' (Dir [(''.env'', File ''KEY=1''), (''app.json'', File ''{}'')])
       ''/w/config/*'' ''/w/config'' =
     Inr [\<lparr>absolute = ''/w/config/.env'', relative = ''.env''\<rparr>,
          \<lparr>absolute = ''/w/config/app.json'', relative = ''app.json''\<rparr>]
   \<and> {p. file_under ''/w/config'' (Dir [(''.env'', File ''KEY=1''), (''app.json'', File ''{}'')]) p
          \<and> glob_match (normalizePath p) ''/w/config/*'' \<lparr>dot = True\<rparr>}
       = {''/w/config/.env'', ''/w/config/app.json''}
   \<and> (\<exists>e. findFiles glob_match ''/w'' ''/w/config'' (Dir [(''app.json'', File ''{}''), (''secret'', Locked)])
              ''/w/config/*'' ''/w/config'' = Inl e)"
proof -
  let ?ok = "Dir [(''.env'', File ''KEY=1''), (''app.json'', File ''{}'')]"
  let ?bad = "Dir [(''app.json'', File ''{}''), (''secret'', Locked)]"
  have nr: "\<not> read_error ?ok"
    by (simp add: isDirectory_def)
  have re: "read_error ?bad"
    by (simp add: isDirectory_def)
  have f: "findFiles glob_match ''/w'' ''/w/config'' ?ok ''/w/config/*'' ''/w/config'' =
     Inr [\<lparr>absolute = ''/w/config/.env'', relative = ''.env''\<rparr>,
          \<lparr>absolute = ''/w/config/app.json'', relative = ''app.json''\<rparr>]"
    by code_simp
  show ?thesis
    using findFiles_exact [of ?ok glob_match "''/w''" "''/w/config''" "''/w/config/*''" "''/w/config''"]
          findFiles_exact [of ?bad glob_match "''/w''" "''/w/config''" "''/w/config/*''" "''/w/config''"]
          nr re f
    by auto
qed

section \<open>The pattern processor\<close>



lemma literal_located:
  assumes cwd: "cwd \<noteq> []" "hd cwd = CHR ''/''"
    and dir: "isDirectory root"
    and pat: "pattern = path_resolve cwd arg"
    and st: "stat cwd root pattern = Inr (File c)"
    and out: "outputDir = path_resolve cwd outArg"
  shows "\<exists>ps b. proper b \<and> (\<forall>x \<in> set ps. proper x) \<and> (\<forall>x \<in> set (locate cwd outputDir). proper x)
           \<and> pattern = abs_path (ps @ [b])
           \<and> outputDir = abs_path (locate cwd outputDir)
           \<and> path_basename pattern = b
           \<and> source_of cwd \<lparr>absolute = pattern, relative = path_basename pattern\<rparr> = ps @ [b]
           \<and> target_of cwd outputDir \<lparr>absolute = pattern, relative = path_basename pattern\<rparr>
               = locate cwd outputDir @ [b]
           \<and> target_dir_of cwd outputDir \<lparr>absolute = pattern, relative = path_basename pattern\<rparr>
               = locate cwd outputDir"
proof -
  from path_resolve_is_abs [of cwd arg] cwd pat obtain xs where
    xs: "\<forall>x \<in> set xs. proper x" and p: "pattern = abs_path xs"
    by auto
  from path_resolve_is_abs [of cwd outArg] cwd out obtain os where
    os: "\<forall>x \<in> set os. proper x" and o: "outputDir = abs_path os"
    by auto
  have lo: "locate cwd outputDir = os"
    using os o by (simp add: locate_abs)
  have lp: "locate cwd pattern = xs"
    using xs p by (simp add: locate_abs)
  have "xs \<noteq> []"
  proof
    assume "xs = []"
    with st lp have "root = File c" by (simp add: stat_def)
    with dir show False by (simp add: isDirectory_def)
  qed
  then obtain ps b where sp: "xs = ps @ [b]"
    by (metis append_butlast_last_id)
  with xs have b: "proper b" and ps: "\<forall>x \<in> set ps. proper x"
    by auto
  have base: "path_basename pattern = b"
    using b by (simp add: p sp path_basename_abs)
  have j: "path_join outputDir b = abs_path (os @ [b])"
    using os b by (simp add: o path_join_abs)
  have all: "\<forall>x \<in> set (os @ [b]). proper x"
    using os b by simp
  have t: "locate cwd (path_join outputDir b) = os @ [b]"
    unfolding j using all by (rule locate_abs)
  have d: "locate cwd (path_dirname (path_join outputDir b)) = os"
    unfolding j using os b by (simp add: path_dirname_abs locate_abs)
  show ?thesis
    using b ps os sp p o lo lp base t d
    by (intro exI [of _ ps] exI [of _ b]) (simp add: source_of_def target_of_def target_dir_of_def)
qed






section \<open>The copier\<close>

lemma copyFile_success:
  assumes "copyFile cwd r1 src dst = Inr r2"
  shows "\<exists>c. stat_at r1 (locate cwd src) = Some (EFile c)
           \<and> write_file r1 (locate cwd dst) c = Inr r2"
proof (cases "walk r1 (locate cwd src)")
  case (Inl e)
  with assms show ?thesis by (simp add: copyFile_def)
next
  case (Inr m)
  with assms obtain c where "m = File c" "write_file r1 (locate cwd dst) c = Inr r2"
    by (cases m) (auto simp: copyFile_def)
  with Inr show ?thesis
    by (auto simp: walk_File_iff [symmetric])
qed

lemma copy_step:
  assumes mk: "mkdir_recursive cwd root dir = Inr root1"
    and cp: "copyFile cwd root1 src dst = Inr root2"
  shows "\<exists>c. copied root root2 (locate cwd src) (locate cwd dst) (locate cwd dir) c"
proof -
  let ?s = "locate cwd src" and ?d = "locate cwd dst" and ?P = "locate cwd dir"
  have m1: "stat_at root1 r = (case stat_at root r of Some e \<Rightarrow> Some e
                   | None \<Rightarrow> if prefix r ?P then Some EDir else None)" for r
    using mk by (simp add: mkdir_recursive_def mkdirp_stat)
  have m2: "dir_at root1 ?P"
    using mk mkdirp_is_dir [of root ?P root1] by (simp add: mkdir_recursive_def dir_at_def)
  from copyFile_success [OF cp] obtain c where
    s1: "stat_at root1 ?s = Some (EFile c)" and w: "write_file root1 ?d c = Inr root2"
    by blast
  have w1: "stat_at root2 r = (if r = ?d then Some (EFile c) else stat_at root1 r)" for r
    using w by (rule write_file_stat)
  have w2: "stat_at root1 ?d = None \<or> (\<exists>c0. stat_at root1 ?d = Some (EFile c0))"
    using w by (rule write_file_pre)
  have s0: "stat_at root ?s = Some (EFile c)"
    using s1 m1 [of ?s] by (auto split: option.splits if_splits)
  have dP: "?d \<noteq> ?P"
    using w2 m2 by (auto simp: dir_at_def)
  have d0: "stat_at root ?d = None \<or> (\<exists>c0. stat_at root ?d = Some (EFile c0))"
    using w2 m1 [of ?d] by (auto split: option.splits if_splits)
  have "dir_at root2 ?P"
    using m2 dP w1 [of ?P] by (simp add: dir_at_def)
  with s0 d0 w1 m1 show ?thesis
    unfolding copied_def by auto
qed

lemma copyFiles_Cons_success:
  assumes "copyFiles cwd (f # fs) out root = (root', None)"
  shows "\<exists>root2 c. copied root root2 (source_of cwd f) (target_of cwd out f) (target_dir_of cwd out f) c
            \<and> copyFiles cwd fs out root2 = (root', None)"
proof -
  let ?dest = "path_join out (relative f)"
  from assms obtain root1 where mk: "mkdir_recursive cwd root (path_dirname ?dest) = Inr root1"
    by (cases "mkdir_recursive cwd root (path_dirname ?dest)") (auto simp: Let_def)
  with assms obtain root2 where cp: "copyFile cwd root1 (absolute f) ?dest = Inr root2"
    and rest: "copyFiles cwd fs out root2 = (root', None)"
    by (cases "copyFile cwd root1 (absolute f) ?dest") (auto simp: Let_def)
  from copy_step [OF mk cp] rest show ?thesis
    by (auto simp: source_of_def target_of_def target_dir_of_def)
qed


lemma copied_keeps_kind:
  assumes "copied root root2 s d P c" and "stat_at root r = Some e"
  shows "stat_at root2 r = Some e \<or> (\<exists>c0. e = EFile c0 \<and> stat_at root2 r = Some (EFile c))"
  using assms unfolding copied_def by (cases "r = d") auto

lemma copyFiles_keeps_kind:
  "copyFiles cwd files out root = (root', None) \<Longrightarrow> stat_at root r = Some e \<Longrightarrow>
   stat_at root' r = Some e \<or> (\<exists>c0 c1. e = EFile c0 \<and> stat_at root' r = Some (EFile c1))"
proof (induction files arbitrary: root e)
  case Nil
  then show ?case by simp
next
  case (Cons f fs)
  from copyFiles_Cons_success [OF Cons.prems(1)] obtain root2 c where
    st: "copied root root2 (source_of cwd f) (target_of cwd out f) (target_dir_of cwd out f) c"
    and rest: "copyFiles cwd fs out root2 = (root', None)"
    by blast
  from copied_keeps_kind [OF st Cons.prems(2)]
  consider "stat_at root2 r = Some e" | c0 where "e = EFile c0" "stat_at root2 r = Some (EFile c)"
    by blast
  then show ?case
  proof cases
    case 1
    from Cons.IH [OF rest 1] show ?thesis .
  next
    case 2
    from Cons.IH [OF rest 2(2)] 2(1) show ?thesis by auto
  qed
qed

lemma copyFiles_keeps_dir:
  "copyFiles cwd files out root = (root', None) \<Longrightarrow> dir_at root r \<Longrightarrow> dir_at root' r"
  unfolding dir_at_def using copyFiles_keeps_kind by fastforce

lemma copyFiles_frame:
  "copyFiles cwd files out root = (root', None) \<Longrightarrow>
   \<forall>g \<in> set files. target_of cwd out g \<noteq> q \<Longrightarrow>
   stat_at root q = Some (EFile c) \<Longrightarrow> stat_at root' q = Some (EFile c)"
proof (induction files arbitrary: root)
  case Nil
  then show ?case by simp
next
  case (Cons f fs)
  from copyFiles_Cons_success [OF Cons.prems(1)] obtain root2 c' where
    st: "copied root root2 (source_of cwd f) (target_of cwd out f) (target_dir_of cwd out f) c'"
    and rest: "copyFiles cwd fs out root2 = (root', None)"
    by blast
  have "stat_at root2 q = Some (EFile c)"
    using st Cons.prems(2,3) unfolding copied_def by auto
  with Cons.IH [OF rest] Cons.prems(2) show ?case by simp
qed

lemma copyFiles_delivers:
  assumes "copyFiles cwd files out root = (root', None)"
    and "\<exists>g \<in> set files. target_of cwd out g = d \<and> source_of cwd g = s"
    and "\<forall>g \<in> set files. target_of cwd out g = d \<longrightarrow> source_of cwd g = s"
    and "\<forall>g \<in> set files. target_of cwd out g \<noteq> s"
  shows "\<exists>c. stat_at root s = Some (EFile c) \<and> stat_at root' d = Some (EFile c)"
  using assms
proof (induction files arbitrary: root)
  case Nil
  then show ?case by simp
next
  case (Cons f fs)
  from copyFiles_Cons_success [OF Cons.prems(1)] obtain root2 c where
    st: "copied root root2 (source_of cwd f) (target_of cwd out f) (target_dir_of cwd out f) c"
    and rest: "copyFiles cwd fs out root2 = (root', None)"
    by blast
  have ns: "target_of cwd out f \<noteq> s"
    using Cons.prems(4) by simp
  show ?case
  proof (cases "\<exists>g \<in> set fs. target_of cwd out g = d \<and> source_of cwd g = s")
    case True
    have "\<exists>c. stat_at root2 s = Some (EFile c) \<and> stat_at root' d = Some (EFile c)"
      using Cons.IH [OF rest True] Cons.prems(3,4) by simp
    then obtain c' where c': "stat_at root2 s = Some (EFile c')" "stat_at root' d = Some (EFile c')"
      by blast
    have "stat_at root s = Some (EFile c')"
      using st ns c'(1) unfolding copied_def by (auto split: option.splits if_splits)
    with c'(2) show ?thesis by blast
  next
    case False
    with Cons.prems(2) have f: "target_of cwd out f = d" "source_of cwd f = s"
      by auto
    from False Cons.prems(3) have none: "\<forall>g \<in> set fs. target_of cwd out g \<noteq> d"
      by auto
    have a: "stat_at root s = Some (EFile c)" and b: "stat_at root2 d = Some (EFile c)"
      using st f unfolding copied_def by auto
    from copyFiles_frame [OF rest none b] a show ?thesis by blast
  qed
qed

lemma copyFiles_append:
  "copyFiles cwd (xs @ ys) out root =
     (case copyFiles cwd xs out root of
        (r, None) \<Rightarrow> copyFiles cwd ys out r
      | (r, Some e) \<Rightarrow> (r, Some e))"
proof (induction xs arbitrary: root)
  case Nil
  show ?case by simp
next
  case (Cons x xs)
  show ?case
    by (simp add: Let_def Cons.IH split: sum.splits)
qed

lemma copyFiles_in_turn:
  assumes "copyFiles cwd files out root = (root', None)" and "f \<in> set files"
  shows "\<exists>pre post r1 r2 c.
           files = pre @ f # post
           \<and> copyFiles cwd pre out root = (r1, None)
           \<and> copied r1 r2 (source_of cwd f) (target_of cwd out f) (target_dir_of cwd out f) c
           \<and> copyFiles cwd post out r2 = (root', None)"
proof -
  from assms(2) obtain pre post where sp: "files = pre @ f # post"
    by (auto dest: split_list)
  obtain r1 e where p: "copyFiles cwd pre out root = (r1, e)"
    by (cases "copyFiles cwd pre out root")
  from assms(1) have e: "e = None" and rest: "copyFiles cwd (f # post) out r1 = (root', None)"
    unfolding sp copyFiles_append p by (cases e; simp)+
  from copyFiles_Cons_success [OF rest] obtain r2 c where
    "copied r1 r2 (source_of cwd f) (target_of cwd out f) (target_dir_of cwd out f) c"
    "copyFiles cwd post out r2 = (root', None)"
    by blast
  with sp p e show ?thesis by blast
qed





section \<open>Literal paths\<close>

text \<open>
  C6, as the claim states it: every argument without wildcard characters is treated as
  a literal path, yielding one match with the base name as relative path if it is a
  regular file, and a warning and no match otherwise. The pattern processor receives
  the argument resolved against the working directory (line 40), and classifies that.
  In the working directory \<open>/h/p*\<close> the arguments \<open>logo.png\<close> and \<open>nope.png\<close>, which
  have no wildcard, are processed as globs with base \<open>/h\<close>: the existing file is
  matched with the relative path \<open>p*/logo.png\<close>, not its base name, and the missing
  one yields no warning.
\<close>

theorem literal_argument_below_wildcard_directory:
  "\<not> hasGlobChars ''logo.png''
   \<and> \<not> hasGlobChars ''nope.png''
   \<and> patterns_of ''/h/p*'' [''logo.png'', ''nope.png'', ''out''] =
       [''/h/p*/logo.png'', ''/h/p*/nope.png'']
   \<and> stat ''/h/p*'' disk4 ''/h/p*/logo.png'' = Inr (File ''PNG'')
   \<and> path_basename ''/h/p*/logo.png'' = ''logo.png''
   \<and> processPattern glob_match ''/h/p*'' disk4 ''/h/p*/logo.png'' =
       ([], Inr [\<lparr>absolute = ''/h/p*/logo.png'', relative = ''p*/logo.png''\<rparr>])
   \<and> processPattern glob_match ''/h/p*'' disk4 ''/h/p*/nope.png'' = ([], Inr [])"
  by code_simp

text \<open>
  C6, amended: an argument whose resolved form has no wildcard characters is a literal
  path. If it is a regular file, the pattern yields one match, whose relative path is
  the base name, which has no separator in it; in a copy that succeeds its destination
  is the base name directly in the output directory, which is a directory afterwards,
  and that destination is a regular file afterwards, holding the bytes of the source
  when this match is the only one, or when no match is copied onto the source and no
  other source onto the destination. Otherwise (the path is missing, or is not a
  regular file) the pattern yields a warning and no match, and the loop over the
  patterns goes on with the next one.
\<close>

theorem processPattern_literal:
  assumes "pattern \<in> set (patterns_of cwd args)" and "\<not> hasGlobChars pattern"
  shows "((\<exists>c. stat cwd root pattern = Inr (File c)) \<longrightarrow>
            processPattern mm cwd root pattern =
              ([], Inr [\<lparr>absolute = pattern, relative = path_basename pattern\<rparr>])
            \<and> CHR ''/'' \<notin> set (path_basename pattern))
       \<and> (\<not> (\<exists>c. stat cwd root pattern = Inr (File c)) \<longrightarrow>
            processPattern mm cwd root pattern = ([Warning_no_files pattern], Inr [])
            \<and> gather mm cwd root (pattern # patterns) out allFiles =
                gather mm cwd root patterns (out @ [Warning_no_files pattern]) allFiles)
       \<and> (\<forall>c files root'.
             stat cwd root pattern = Inr (File c) \<and> isDirectory root
             \<and> cwd \<noteq> [] \<and> hd cwd = CHR ''/'' \<and> outputDir = outputDir_of cwd args
             \<and> \<lparr>absolute = pattern, relative = path_basename pattern\<rparr> \<in> set files
             \<and> copyFiles cwd files outputDir root = (root', None)
           \<longrightarrow> target_of cwd outputDir \<lparr>absolute = pattern, relative = path_basename pattern\<rparr>
                 = locate cwd outputDir @ [path_basename pattern]
               \<and> dir_at root' (locate cwd outputDir)
               \<and> (\<exists>c'. stat_at root' (locate cwd outputDir @ [path_basename pattern])
                          = Some (EFile c'))
               \<and> (files = [\<lparr>absolute = pattern, relative = path_basename pattern\<rparr>]
                    \<or> (\<forall>g \<in> set files. target_of cwd outputDir g \<noteq> locate cwd pattern)
                       \<and> (\<forall>g \<in> set files.
                             target_of cwd outputDir g = locate cwd outputDir @ [path_basename pattern]
                             \<longrightarrow> source_of cwd g = locate cwd pattern)
                  \<longrightarrow> stat_at root' (locate cwd outputDir @ [path_basename pattern])
                        = Some (EFile c)))"
proof -
  let ?lit = "\<lparr>absolute = pattern, relative = path_basename pattern\<rparr>"
  have lit: "processPattern mm cwd root pattern =
      (case stat cwd root pattern of
         Inr (File c) \<Rightarrow> ([], Inr [?lit])
       | _ \<Rightarrow> ([Warning_no_files pattern], Inr []))"
    using assms(2)
    by (simp add: processPattern_def stat_or_null_def isFile_def split: sum.splits node.splits)
  have classify: "((\<exists>c. stat cwd root pattern = Inr (File c)) \<longrightarrow>
            processPattern mm cwd root pattern = ([], Inr [?lit])
            \<and> CHR ''/'' \<notin> set (path_basename pattern))
       \<and> (\<not> (\<exists>c. stat cwd root pattern = Inr (File c)) \<longrightarrow>
            processPattern mm cwd root pattern = ([Warning_no_files pattern], Inr [])
            \<and> gather mm cwd root (pattern # patterns) out allFiles =
                gather mm cwd root patterns (out @ [Warning_no_files pattern]) allFiles)"
    by (auto simp: lit basename_no_slash split: sum.splits node.splits)
  from assms(1) obtain arg where arg: "pattern = path_resolve cwd arg"
    by (auto simp: patterns_of_def)
  have land: "target_of cwd outputDir ?lit = locate cwd outputDir @ [path_basename pattern]
               \<and> dir_at root' (locate cwd outputDir)
               \<and> (\<exists>c'. stat_at root' (locate cwd outputDir @ [path_basename pattern])
                          = Some (EFile c'))
               \<and> (files = [?lit]
                    \<or> (\<forall>g \<in> set files. target_of cwd outputDir g \<noteq> locate cwd pattern)
                       \<and> (\<forall>g \<in> set files.
                             target_of cwd outputDir g = locate cwd outputDir @ [path_basename pattern]
                             \<longrightarrow> source_of cwd g = locate cwd pattern)
                  \<longrightarrow> stat_at root' (locate cwd outputDir @ [path_basename pattern])
                        = Some (EFile c))"
    if st: "stat cwd root pattern = Inr (File c)" and dir: "isDirectory root"
      and cwd: "cwd \<noteq> []" "hd cwd = CHR ''/''" and out: "outputDir = outputDir_of cwd args"
      and mem: "?lit \<in> set files" and cp: "copyFiles cwd files outputDir root = (root', None)"
    for c files root'
  proof -
    have out': "outputDir = path_resolve cwd (last args)"
      using out by (simp add: outputDir_of_def)
    from literal_located [OF cwd dir arg st out'] obtain ps b where
      s: "source_of cwd ?lit = locate cwd pattern"
      and t: "target_of cwd outputDir ?lit = locate cwd outputDir @ [path_basename pattern]"
      and d: "target_dir_of cwd outputDir ?lit = locate cwd outputDir"
      by (auto simp: source_of_def)
    have s0: "stat_at root (locate cwd pattern) = Some (EFile c)"
      using st by (simp add: stat_def walk_File_iff)
    from copyFiles_in_turn [OF cp mem] obtain pre post r1 r2 c0 where
      sp: "files = pre @ ?lit # post" and pr: "copyFiles cwd pre outputDir root = (r1, None)"
      and step: "copied r1 r2 (source_of cwd ?lit) (target_of cwd outputDir ?lit)
                   (target_dir_of cwd outputDir ?lit) c0"
      and rest: "copyFiles cwd post outputDir r2 = (root', None)"
      by blast
    from step have t2: "stat_at r2 (locate cwd outputDir @ [path_basename pattern]) = Some (EFile c0)"
      and d2: "dir_at r2 (locate cwd outputDir)"
      unfolding t d by (auto simp: copied_def)
    have dirs: "dir_at root' (locate cwd outputDir)"
      using copyFiles_keeps_dir [OF rest d2] .
    have isfile: "\<exists>c'. stat_at root' (locate cwd outputDir @ [path_basename pattern]) = Some (EFile c')"
      using copyFiles_keeps_kind [OF rest t2] by auto
    have fin: "stat_at root' (locate cwd outputDir @ [path_basename pattern]) = Some (EFile c)"
      if alt: "files = [?lit]
                \<or> (\<forall>g \<in> set files. target_of cwd outputDir g \<noteq> locate cwd pattern)
                   \<and> (\<forall>g \<in> set files.
                         target_of cwd outputDir g = locate cwd outputDir @ [path_basename pattern]
                         \<longrightarrow> source_of cwd g = locate cwd pattern)"
    proof -
      from alt consider (single) "files = [?lit]"
        | (apart) "\<forall>g \<in> set files. target_of cwd outputDir g \<noteq> locate cwd pattern"
            "\<forall>g \<in> set files.
               target_of cwd outputDir g = locate cwd outputDir @ [path_basename pattern]
               \<longrightarrow> source_of cwd g = locate cwd pattern"
        by blast
      then show ?thesis
      proof cases
        case single
        from copyFiles_Cons_success [OF cp [unfolded single]] obtain q c1 where
          "copied root q (source_of cwd ?lit) (target_of cwd outputDir ?lit)
             (target_dir_of cwd outputDir ?lit) c1"
          "copyFiles cwd [] outputDir q = (root', None)"
          by blast
        then show ?thesis
          using s0 unfolding s t by (auto simp: copied_def)
      next
        case apart
        have ex: "\<exists>g \<in> set files. target_of cwd outputDir g = locate cwd outputDir @ [path_basename pattern]
                    \<and> source_of cwd g = locate cwd pattern"
          using mem s t by blast
        from copyFiles_delivers [OF cp ex apart(2) apart(1)] s0 show ?thesis
          by simp
      qed
    qed
    from t dirs isfile fin show ?thesis
      by blast
  qed
  from classify land show ?thesis
    by blast
qed

theorem processPattern_literal_witness:
  "patterns_of ''/w'' [''logo.png'', ''nope.png'', ''out''] = [''/w/logo.png'', ''/w/nope.png'']
   \<and> processPattern glob_match ''/w'' disk0 ''/w/logo.png'' =
       ([], Inr [\<lparr>absolute = ''/w/logo.png'', relative = ''logo.png''\<rparr>])
   \<and> stat_at (fst (copyFiles ''/w'' [\<lparr>absolute = ''/w/logo.png'', relative = ''logo.png''\<rparr>]
                     ''/w/out'' disk0))
        [''w'', ''out'', ''logo.png''] = Some (EFile ''PNG'')
   \<and> dir_at (fst (copyFiles ''/w'' [\<lparr>absolute = ''/w/logo.png'', relative = ''logo.png''\<rparr>]
                     ''/w/out'' disk0))
        [''w'', ''out'']
   \<and> processPattern glob_match ''/w'' disk0 ''/w/nope.png'' =
       ([Warning_no_files ''/w/nope.png''], Inr [])"
proof -
  let ?args = "[''logo.png'', ''nope.png'', ''out'']"
  let ?lit = "\<lparr>absolute = ''/w/logo.png'', relative = ''logo.png''\<rparr>"
  let ?after = "fst (copyFiles ''/w'' [?lit] ''/w/out'' disk0)"
  have ps: "patterns_of ''/w'' ?args = [''/w/logo.png'', ''/w/nope.png'']"
    by code_simp
  then have m: "''/w/logo.png'' \<in> set (patterns_of ''/w'' ?args)"
    "''/w/nope.png'' \<in> set (patterns_of ''/w'' ?args)"
    by simp_all
  have g: "\<not> hasGlobChars ''/w/logo.png''" "\<not> hasGlobChars ''/w/nope.png''"
    by code_simp+
  have s1: "stat ''/w'' disk0 ''/w/logo.png'' = Inr (File ''PNG'')"
    by code_simp
  have s2: "stat ''/w'' disk0 ''/w/nope.png'' = Inl ENOENT"
    by code_simp
  have dir: "isDirectory disk0"
    by code_simp
  have o: "''/w/out'' = outputDir_of ''/w'' ?args"
    by code_simp
  have b: "path_basename ''/w/logo.png'' = ''logo.png''"
    by code_simp
  have l: "locate ''/w'' ''/w/out'' = [''w'', ''out'']"
    by code_simp
  have "snd (copyFiles ''/w'' [?lit] ''/w/out'' disk0) = None"
    by code_simp
  then have cp: "copyFiles ''/w'' [?lit] ''/w/out'' disk0 = (?after, None)"
    by (simp add: prod_eq_iff)
  note lit = processPattern_literal [OF m(1) g(1), of disk0 glob_match _ _ _ "''/w/out''"]
  note nope = processPattern_literal [OF m(2) g(2), of disk0 glob_match _ _ _ "''/w/out''"]
  from lit s1 b have c1: "processPattern glob_match ''/w'' disk0 ''/w/logo.png'' = ([], Inr [?lit])"
    by simp
  from nope s2 have c3: "processPattern glob_match ''/w'' disk0 ''/w/nope.png'' =
       ([Warning_no_files ''/w/nope.png''], Inr [])"
    by simp
  from lit have "stat ''/w'' disk0 ''/w/logo.png'' = Inr (File ''PNG'') \<and> isDirectory disk0
             \<and> ''/w'' \<noteq> [] \<and> hd ''/w'' = CHR ''/'' \<and> ''/w/out'' = outputDir_of ''/w'' ?args
             \<and> \<lparr>absolute = ''/w/logo.png'', relative = path_basename ''/w/logo.png''\<rparr> \<in> set [?lit]
             \<and> copyFiles ''/w'' [?lit] ''/w/out'' disk0 = (?after, None)
           \<longrightarrow> dir_at ?after (locate ''/w'' ''/w/out'')
               \<and> ([?lit] = [\<lparr>absolute = ''/w/logo.png'', relative = path_basename ''/w/logo.png''\<rparr>]
                  \<longrightarrow> stat_at ?after (locate ''/w'' ''/w/out'' @ [path_basename ''/w/logo.png''])
                        = Some (EFile ''PNG''))"
    by blast
  with s1 dir o b cp l have c2: "stat_at ?after [''w'', ''out'', ''logo.png''] = Some (EFile ''PNG'')"
    "dir_at ?after [''w'', ''out'']"
    by simp_all
  from ps c1 c2 c3 show ?thesis
    by (intro conjI)
qed

section \<open>A pass\<close>

text \<open>
  C8. If the list of matches is empty after every pattern has been processed, the pass
  prints the error line after the warnings of the patterns and calls
  \<open>process.exit(1)\<close>; nothing is copied, the disk is as it was.
\<close>

theorem no_match_is_fatal:
  assumes "gather mm cwd root patterns [] [] = (out, Inr [])"
  shows "processAllPatterns mm cwd patterns outputDir root =
           (out @ [Error_no_files], Exited 1, root)"
  using assms by (simp add: processAllPatterns_def)

theorem no_match_is_fatal_witness:
  "processAllPatterns glob_match ''/w'' [''/w/src/*.txt'', ''/w/nope.png''] ''/w/out'' disk0 =
     ([Warning_no_files ''/w/nope.png'', Error_no_files], Exited 1, disk0)"
proof -
  have g: "gather glob_match ''/w'' disk0 [''/w/src/*.txt'', ''/w/nope.png''] [] [] =
           ([Warning_no_files ''/w/nope.png''], Inr [])"
    by code_simp
  show ?thesis
    using no_match_is_fatal [OF g, of "''/w/out''"] by simp
qed



section \<open>A second pass\<close>








section \<open>Watch mode\<close>

text \<open>
  C2, as the claim states it: every failure of a pass started by the debounce timer,
  a fatal error included, is caught and logged, and the process keeps watching. A pass
  that matches no file is a counterexample: it ends in \<open>process.exit(1)\<close>, which
  \<open>try\<close>/\<open>catch\<close> does not catch, and the process terminates.
\<close>

theorem watch_pass_can_end_session:
  "debounce_callback glob_match ''/w'' [''/w/src/*.txt''] ''/w/out'' disk0 =
     ([Error_no_files], Terminated 1, disk0)"
  by code_simp

text \<open>
  C2, amended: every exception thrown by a pass started by the debounce timer (a
  directory that cannot be read, a failing \<open>mkdir\<close> or \<open>copyFile\<close>) is caught and
  logged, and the process keeps watching. The process keeps watching after a pass
  exactly when the aggregated list of the pass was not empty; a pass with an empty
  list terminates the process with exit code 1.
\<close>

theorem debounce_callback_outcomes:
  "(fst (snd (processAllPatterns mm cwd patterns outputDir root)) = Threw e \<longrightarrow>
      debounce_callback mm cwd patterns outputDir root =
        (fst (processAllPatterns mm cwd patterns outputDir root) @ [Error_during_copy e],
         Running,
         snd (snd (processAllPatterns mm cwd patterns outputDir root))))
   \<and> (fst (snd (debounce_callback mm cwd patterns outputDir root)) = Running
        \<longleftrightarrow> snd (gather mm cwd root patterns [] []) \<noteq> Inr [])
   \<and> (fst (snd (debounce_callback mm cwd patterns outputDir root)) \<noteq> Running
        \<longrightarrow> fst (snd (debounce_callback mm cwd patterns outputDir root)) = Terminated 1)"
proof -
  obtain out r where g: "gather mm cwd root patterns [] [] = (out, r)"
    by (cases "gather mm cwd root patterns [] []")
  show ?thesis
  proof (cases r)
    case (Inl err)
    with g show ?thesis
      by (simp add: debounce_callback_def processAllPatterns_def)
  next
    case (Inr allFiles)
    show ?thesis
    proof (cases "allFiles = []")
      case True
      with g Inr show ?thesis
        by (simp add: debounce_callback_def processAllPatterns_def)
    next
      case False
      obtain root' err where c: "copyFiles cwd allFiles outputDir root = (root', err)"
        by (cases "copyFiles cwd allFiles outputDir root")
      with g Inr False show ?thesis
        by (cases err) (simp_all add: debounce_callback_def processAllPatterns_def)
    qed
  qed
qed

theorem debounce_callback_outcomes_witness:
  "debounce_callback glob_match ''/w'' [''/w/config/*''] ''/w/out'' disk2 =
     ([Error_during_copy EACCES], Running, disk2)
   \<and> debounce_callback glob_match ''/w'' [''/w/src/*.svg''] ''/w/logo.png'' disk0 =
     ([Error_during_copy EEXIST], Running, disk0)
   \<and> fst (snd (debounce_callback glob_match ''/w'' [''/w/src/*.txt''] ''/w/out'' disk0)) = Terminated 1"
proof -
  have p1: "processAllPatterns glob_match ''/w'' [''/w/config/*''] ''/w/out'' disk2 =
           ([], Threw EACCES, disk2)"
    by code_simp
  have p2: "processAllPatterns glob_match ''/w'' [''/w/src/*.svg''] ''/w/logo.png'' disk0 =
           ([], Threw EEXIST, disk0)"
    by code_simp
  have g3: "snd (gather glob_match ''/w'' disk0 [''/w/src/*.txt''] [] []) = Inr []"
    by code_simp
  show ?thesis
    using debounce_callback_outcomes [of glob_match "''/w''" "[''/w/config/*'']" "''/w/out''" disk2 EACCES]
          debounce_callback_outcomes [of glob_match "''/w''" "[''/w/src/*.svg'']" "''/w/logo.png''" disk0 EEXIST]
          debounce_callback_outcomes [of glob_match "''/w''" "[''/w/src/*.txt'']" "''/w/out''" disk0 EACCES]
          p1 p2 g3
    by simp
qed

lemma armed_first: "armed (handleFileChange t (run_timers t idle)) t 0"
  by (simp add: armed_def handleFileChange_def run_timers_def idle_def setTimeout_def)

lemma armed_step:
  assumes "armed w t n" "t \<le> u" "u < t + 100"
  shows "armed (handleFileChange u (run_timers u w)) u n"
proof -
  from assms(1) obtain h where h: "debounceTimer w = Some h" "timers w = [(h, t + 100)]"
    and n: "passes w = n"
    by (auto simp: armed_def)
  have r: "run_timers u w = w"
    using h assms(3) by (simp add: run_timers_def)
  show ?thesis
    using h n unfolding r
    by (simp add: armed_def handleFileChange_def clearTimeout_def setTimeout_def)
qed

lemma armed_burst:
  "armed w t n \<Longrightarrow> burst (t # ts) \<Longrightarrow> armed (event_loop w ts) (last (t # ts)) n"
proof (induction ts arbitrary: w t)
  case Nil
  then show ?case by simp
next
  case (Cons u us)
  from Cons.prems have "armed (handleFileChange u (run_timers u w)) u n"
    by (auto intro: armed_step)
  moreover from Cons.prems have "burst (u # us)" by simp
  ultimately have "armed (event_loop (handleFileChange u (run_timers u w)) us) (last (u # us)) n"
    by (rule Cons.IH)
  then show ?case by simp
qed

text \<open>
  C9. For a burst of change events, each less than 100 ms after the one before, every
  event cancels the pending timeout and sets a new one: no pass runs while the events
  arrive, and after the last event one timeout is pending, due 100 ms later. No pass
  runs before these 100 ms have passed, and exactly one once they have.
\<close>

theorem burst_triggers_one_pass:
  assumes "ts \<noteq> []" and "burst ts"
  shows "passes (event_loop idle ts) = 0
       \<and> (\<exists>h. timers (event_loop idle ts) = [(h, last ts + 100)])
       \<and> (T < last ts + 100 \<longrightarrow> passes (watch_until T ts) = 0)
       \<and> (last ts + 100 \<le> T \<longrightarrow> passes (watch_until T ts) = 1)"
proof -
  from assms(1) obtain t us where ts: "ts = t # us" by (cases ts) auto
  have "armed (event_loop (handleFileChange t (run_timers t idle)) us) (last (t # us)) 0"
    using armed_first assms(2) unfolding ts by (rule armed_burst)
  then have a: "armed (event_loop idle ts) (last ts) 0"
    by (simp add: ts)
  then obtain h where "timers (event_loop idle ts) = [(h, last ts + 100)]"
    and "passes (event_loop idle ts) = 0"
    by (auto simp: armed_def)
  then show ?thesis
    by (simp add: watch_until_def run_timers_def)
qed

theorem burst_triggers_one_pass_witness:
  "passes (event_loop idle [0, 40, 90]) = 0
   \<and> passes (watch_until 189 [0, 40, 90]) = 0
   \<and> passes (watch_until 190 [0, 40, 90]) = 1"
proof -
  have b: "burst [0, 40, 90]" by simp
  have n: "[0, 40, 90] \<noteq> ([] :: nat list)" by simp
  show ?thesis
    using burst_triggers_one_pass [OF n b, of 189] burst_triggers_one_pass [OF n b, of 190]
    by simp
qed

end
